theory Spec2Isabelle
  imports Main "HOL-Library.Word"
begin

section \<open>Squares, moves and colours (types.h)\<close>

text \<open>
  Modelled from the spec: the header types.h is not among the sources, so the value types
  that uci.cpp uses are written down here. A Move is the small immutable value of the data
  model (from-square, to-square, promotion piece, move kind, with the two sentinels
  "no move" and "null move"); it is packed the way the engine family packs it: bits 0-5
  the destination, bits 6-11 the origin, bits 12-13 the promotion piece minus KNIGHT,
  bits 14-15 the kind. Squares are numbered a1 = 0, b1 = 1, ..., h8 = 63. A Color is the
  two sides plus the enumeration's count member COLOR_NB.
\<close>

type_synonym Square = nat
type_synonym Move = nat

datatype Color = WHITE | BLACK | COLOR_NB

definition MOVE_NONE :: Move where
  "MOVE_NONE = 0"

definition MOVE_NULL :: Move where
  "MOVE_NULL = 65"

definition NORMAL :: nat where
  "NORMAL = 0"

definition PROMOTION :: nat where
  "PROMOTION = 16384"

definition ENPASSANT :: nat where
  "ENPASSANT = 32768"

definition CASTLING :: nat where
  "CASTLING = 49152"

definition KNIGHT :: nat where
  "KNIGHT = 2"

definition BISHOP :: nat where
  "BISHOP = 3"

definition ROOK :: nat where
  "ROOK = 4"

definition QUEEN :: nat where
  "QUEEN = 5"

definition FILE_C :: nat where
  "FILE_C = 2"

definition FILE_G :: nat where
  "FILE_G = 6"

definition from_sq :: "Move \<Rightarrow> Square" where
  "from_sq m = (m div 64) mod 64"

definition to_sq :: "Move \<Rightarrow> Square" where
  "to_sq m = m mod 64"

definition type_of :: "Move \<Rightarrow> nat" where
  "type_of m = ((m div 16384) mod 4) * 16384"

definition promotion_type :: "Move \<Rightarrow> nat" where
  "promotion_type m = (m div 4096) mod 4 + KNIGHT"

definition make_square :: "nat \<Rightarrow> nat \<Rightarrow> Square" where
  "make_square f r = r * 8 + f"

definition file_of :: "Square \<Rightarrow> nat" where
  "file_of s = s mod 8"

definition rank_of :: "Square \<Rightarrow> nat" where
  "rank_of s = s div 8"

definition is_ok :: "Move \<Rightarrow> bool" where
  "is_ok m = (from_sq m \<noteq> to_sq m)"

definition make_move :: "Square \<Rightarrow> Square \<Rightarrow> Move" where
  "make_move frm to = frm * 64 + to"

definition make_T :: "nat \<Rightarrow> Square \<Rightarrow> Square \<Rightarrow> nat \<Rightarrow> Move" where
  "make_T T frm to pt = T + (pt - KNIGHT) * 4096 + frm * 64 + to"


section \<open>The Position collaborator (position.h, movegen.h)\<close>

text \<open>
  Modelled from the spec: position.h and movegen.h are not among the sources. The Position
  is the external collaborator of the interface section: set-from-FEN, apply and undo a
  move, legal-move enumeration, check and consistency queries, FEN serialisation. The
  handlers of uci.cpp are written against this interface, so the model takes it as a
  parameter: a record of the member functions over an arbitrary position type. Every
  theorem below holds for every implementation, except where a hypothesis names a contract
  of the collaborator.
\<close>

record 'p Position_api =
  set_pos :: "string \<Rightarrow> bool \<Rightarrow> 'p"
  do_move :: "'p \<Rightarrow> Move \<Rightarrow> 'p"
  undo_move :: "'p \<Rightarrow> Move \<Rightarrow> 'p"
  MoveList_LEGAL :: "'p \<Rightarrow> Move list"
  is_chess960 :: "'p \<Rightarrow> bool"
  side_to_move :: "'p \<Rightarrow> Color"
  checkers :: "'p \<Rightarrow> 64 word"
  legal :: "'p \<Rightarrow> Move \<Rightarrow> bool"
  fen :: "'p \<Rightarrow> string"
  pos_is_ok :: "'p \<Rightarrow> bool"


section \<open>The move notation codec (UCI::square, UCI::move, UCI::to_move)\<close>

text \<open>The C library's tolower in the "C" locale, on one character.\<close>

definition tolower :: "char \<Rightarrow> char" where
  "tolower c =
     (if (65::nat) \<le> of_char c \<and> of_char c \<le> (90::nat)
      then char_of (of_char c + (32::nat)) else c)"

text \<open>UCI::square: the file letter, then the rank digit.\<close>

definition square :: "Square \<Rightarrow> string" where
  "square s =
     [char_of (of_char (CHR ''a'') + file_of s), char_of (of_char (CHR ''1'') + rank_of s)]"

text \<open>
  UCI::move. The two sentinels come first; a castling move outside chess960 mode is shown
  with the king's destination on file g or c of the origin's rank; a promotion appends the
  letter of the promoted piece, read from the literal " pnbrqk".
\<close>

definition UCI_move :: "Move \<Rightarrow> bool \<Rightarrow> string" where
  "UCI_move m chess960 =
     (let frm = from_sq m; to = to_sq m in
      if m = MOVE_NONE then ''(none)''
      else if m = MOVE_NULL then ''0000''
      else
        let to' = (if type_of m = CASTLING \<and> \<not> chess960
                   then make_square (if to > frm then FILE_G else FILE_C) (rank_of frm)
                   else to);
            mv = square frm @ square to'
        in if type_of m = PROMOTION then mv @ ['' pnbrqk'' ! promotion_type m] else mv)"

text \<open>
  UCI::to_move. A string of length five has its fifth character lowered in place; then
  the legal moves are scanned in generation order and the first one whose encoding, under
  the position's own castling-notation variant, equals the string is returned. The string
  is a reference parameter, but no caller reads it again after the call, so the model
  returns the move only; \<open>normalise\<close> is the string as the scan sees it.
\<close>

definition normalise :: "string \<Rightarrow> string" where
  "normalise str = (if length str = 5 then str[4 := tolower (str ! 4)] else str)"

definition to_move :: "'p Position_api \<Rightarrow> 'p \<Rightarrow> string \<Rightarrow> Move" where
  "to_move api pos str =
     (case find (\<lambda>m. normalise str = UCI_move m (is_chess960 api pos)) (MoveList_LEGAL api pos) of
        Some m \<Rightarrow> m
      | None \<Rightarrow> MOVE_NONE)"

text \<open>The encodings of the legal moves of a position, in generation order.\<close>

definition encodings :: "'p Position_api \<Rightarrow> 'p \<Rightarrow> string list" where
  "encodings api pos = map (\<lambda>m. UCI_move m (is_chess960 api pos)) (MoveList_LEGAL api pos)"


section \<open>Input streams (std::istringstream)\<close>

text \<open>
  An input string stream is the characters not yet read and the fail flag. Once the flag
  is set every extraction fails and leaves its target variable unchanged.
\<close>

record istringstream =
  buf :: string
  failbit :: bool

definition istream :: "string \<Rightarrow> istringstream" where
  "istream s = \<lparr> buf = s, failbit = False \<rparr>"

text \<open>The C library's isspace in the "C" locale: space, \t, \n, \v, \f, \r.\<close>

definition isspace :: "char \<Rightarrow> bool" where
  "isspace c =
     (c = CHR '' '' \<or> c = CHR 0x09 \<or> c = CHR 0x0A \<or> c = CHR 0x0B \<or> c = CHR 0x0C \<or> c = CHR 0x0D)"

text \<open>
  \<open>is >> token\<close> for a string: skip white space; at the end of the input set the fail
  flag and report failure; otherwise take the characters up to the next white space.
\<close>

definition get_token :: "istringstream \<Rightarrow> string option \<times> istringstream" where
  "get_token ss =
     (if failbit ss then (None, ss)
      else
        let rest = dropWhile isspace (buf ss) in
        if rest = [] then (None, \<lparr> buf = [], failbit = True \<rparr>)
        else (Some (takeWhile (\<lambda>c. \<not> isspace c) rest),
              \<lparr> buf = dropWhile (\<lambda>c. \<not> isspace c) rest, failbit = False \<rparr>))"

definition remaining :: "istringstream \<Rightarrow> nat" where
  "remaining ss = (if failbit ss then 0 else Suc (length (buf ss)))"

lemma get_token_less:
  assumes "get_token ss = (Some t, ss')"
  shows "remaining ss' < remaining ss"
proof -
  let ?rest = "dropWhile isspace (buf ss)"
  from assms have nf: "\<not> failbit ss" and ne: "?rest \<noteq> []"
    and ss': "ss' = \<lparr> buf = dropWhile (\<lambda>c. \<not> isspace c) ?rest, failbit = False \<rparr>"
    by (auto simp: get_token_def Let_def split: if_splits)
  from ne have "\<not> isspace (hd ?rest)"
    by (rule hd_dropWhile)
  with ne have "dropWhile (\<lambda>c. \<not> isspace c) ?rest = dropWhile (\<lambda>c. \<not> isspace c) (tl ?rest)"
    by (cases ?rest) auto
  then have "length (dropWhile (\<lambda>c. \<not> isspace c) ?rest) \<le> length (tl ?rest)"
    by (simp only: length_dropWhile_le)
  also from ne have "\<dots> < length ?rest"
    by (cases ?rest) auto
  also have "\<dots> \<le> length (buf ss)"
    by (rule length_dropWhile_le)
  finally show ?thesis
    using nf ss' by (simp add: remaining_def)
qed

text \<open>All the tokens that repeated extraction would still deliver.\<close>

function tokens :: "istringstream \<Rightarrow> string list" where
  "tokens ss = (case get_token ss of (Some t, ss') \<Rightarrow> t # tokens ss' | (None, ss') \<Rightarrow> [])"
  by pat_completeness auto
termination
  by (relation "measure remaining") (auto dest: get_token_less [OF sym])

declare tokens.simps [simp del]


section \<open>Numeric extraction\<close>

text \<open>
  \<open>is >> n\<close> for a signed integer of the given width, in decimal: a failed stream, or one
  with nothing but white space left, leaves the variable as it was; a field without digits
  stores 0 and sets the fail flag; a value out of range stores the nearest bound and sets
  the fail flag.
\<close>

definition isdigit :: "char \<Rightarrow> bool" where
  "isdigit c = ((48::nat) \<le> of_char c \<and> of_char c \<le> (57::nat))"

definition decimal :: "string \<Rightarrow> int" where
  "decimal ds = foldl (\<lambda>a c. 10 * a + (of_char c - 48)) 0 ds"

definition skip_sign :: "string \<Rightarrow> string" where
  "skip_sign rest = (if hd rest = CHR ''-'' \<or> hd rest = CHR ''+'' then tl rest else rest)"

definition get_int :: "nat \<Rightarrow> int \<Rightarrow> istringstream \<Rightarrow> int \<times> istringstream" where
  "get_int bits old ss =
     (if failbit ss then (old, ss)
      else
        let rest = dropWhile isspace (buf ss) in
        if rest = [] then (old, \<lparr> buf = [], failbit = True \<rparr>)
        else
          let neg = (hd rest = CHR ''-'');
              r1 = skip_sign rest;
              ds = takeWhile isdigit r1;
              r2 = dropWhile isdigit r1;
              v = (if neg then - decimal ds else decimal ds)
          in
          if ds = [] then (0, \<lparr> buf = r2, failbit = True \<rparr>)
          else if v > 2 ^ (bits - 1) - 1 then (2 ^ (bits - 1) - 1, \<lparr> buf = r2, failbit = True \<rparr>)
          else if v < - (2 ^ (bits - 1)) then (- (2 ^ (bits - 1)), \<lparr> buf = r2, failbit = True \<rparr>)
          else (v, \<lparr> buf = r2, failbit = False \<rparr>))"

lemma get_token_le: "remaining (snd (get_token ss)) \<le> remaining ss"
proof -
  have "length (dropWhile (\<lambda>c. \<not> isspace c) (dropWhile isspace (buf ss))) \<le> length (buf ss)"
    by (rule order_trans [OF length_dropWhile_le length_dropWhile_le])
  then show ?thesis
    by (simp add: get_token_def remaining_def Let_def)
qed

lemma remaining_le: "remaining ss \<le> Suc (length (buf ss))"
  by (simp add: remaining_def)

lemma length_skip_sign: "length (skip_sign r) \<le> length r"
  by (simp add: skip_sign_def)

lemma get_int_buf_le: "length (buf (snd (get_int bits old ss))) \<le> length (buf ss)"
proof -
  have "length (dropWhile isdigit (skip_sign (dropWhile isspace (buf ss)))) \<le> length (buf ss)"
    by (rule order_trans [OF length_dropWhile_le order_trans [OF length_skip_sign length_dropWhile_le]])
  then show ?thesis
    by (simp add: get_int_def Let_def)
qed

lemma get_int_le: "remaining (snd (get_int bits old ss)) \<le> remaining ss"
proof (cases "failbit ss")
  case True
  then show ?thesis by (simp add: get_int_def)
next
  case False
  have "remaining (snd (get_int bits old ss)) \<le> Suc (length (buf (snd (get_int bits old ss))))"
    by (rule remaining_le)
  also have "\<dots> \<le> Suc (length (buf ss))"
    using get_int_buf_le [of bits old ss] by simp
  also from False have "\<dots> = remaining ss"
    by (simp add: remaining_def)
  finally show ?thesis .
qed


section \<open>The session: Position, undo records, option table\<close>

text \<open>
  Modelled from the spec: the StateInfo record is declared in position.h, which is not
  among the sources. uci.cpp never reads or writes a field of it: it creates the records
  (one when the deque is made, one per emplace_back) and hands them to the Position. A
  record is therefore a blank slot, and the StateListPtr is the list of slots, or None
  when the pointer is empty.
\<close>

datatype StateInfo = Blank

text \<open>
  Modelled from the spec: the option table (uci.h, ucioption.cpp) is not among the sources.
  It is the process-wide mapping from option name to current string value of the data
  model; a boolean option reads as true when its value is the text "true".
\<close>

type_synonym OptionsMap = "string \<rightharpoonup> string"

definition option_bool :: "OptionsMap \<Rightarrow> string \<Rightarrow> bool" where
  "option_bool opts name = (opts name = Some ''true'')"

text \<open>
  Modelled from the spec: search.h is not among the sources. The search request of the data
  model: the search-move restriction list, per-side remaining time and increment, moves to
  the next time control, and the optional bounds; perft and the start time are the two
  further fields go() assigns. The two-element arrays time[] and inc[] are one field per
  side. A default-constructed request is all zeros with no search moves.
\<close>

record LimitsType =
  searchmoves :: "Move list"
  time_WHITE :: int
  time_BLACK :: int
  inc_WHITE :: int
  inc_BLACK :: int
  movestogo :: int
  depth :: int
  nodes :: int
  movetime :: int
  mate :: int
  perft :: int
  infinite_flag :: int
  startTime :: int

definition LimitsType0 :: LimitsType where
  "LimitsType0 =
     \<lparr> searchmoves = [], time_WHITE = 0, time_BLACK = 0, inc_WHITE = 0, inc_BLACK = 0,
       movestogo = 0, depth = 0, nodes = 0, movetime = 0, mate = 0, perft = 0,
       infinite_flag = 0, startTime = 0 \<rparr>"

text \<open>
  Modelled from the spec: thread.h, misc.h and benchmark.cpp are not among the sources. The
  engine is the search collaborator of the interface section, taken as a parameter:
  \<open>now\<close> is the clock in milliseconds, the k-th reading since the session began;
  \<open>start_thinking\<close> begins a search and returns what the caller's undo-record pointer
  holds afterwards; \<open>nodes_searched\<close> is the node count reported once a search on the
  given position with the given request has finished; \<open>setup_bench\<close> expands the bench
  arguments into the command list.
\<close>

record 'p Threads_api =
  now :: "nat \<Rightarrow> int"
  start_thinking :: "'p \<Rightarrow> StateInfo list option \<Rightarrow> LimitsType \<Rightarrow> bool \<Rightarrow> StateInfo list option"
  nodes_searched :: "'p \<Rightarrow> LimitsType \<Rightarrow> 64 word"
  setup_bench :: "'p \<Rightarrow> string \<Rightarrow> string list"

text \<open>
  What is written to a stream: text and numbers, in order. The session is the state the
  handlers share: the Position, the undo-record pointer, the option table, the two output
  streams, the number of clock readings taken so far, and the requests handed to
  start_thinking.
\<close>

datatype out_item = Txt string | Num int

record 'p session =
  cur_pos :: 'p
  states :: "StateInfo list option"
  Options :: OptionsMap
  cout :: "string list"
  cerr :: "out_item list"
  ticks :: nat
  thinking :: "(LimitsType \<times> bool) list"

text \<open>An assertion that fails aborts the run; a division by zero is an error as well.\<close>

datatype error = AssertionFailed | DivideByZero

definition StartFEN :: string where
  "StartFEN = ''rnbqkbnr/pppppppp/8/8/8/8/PPPPPPPP/RNBQKBNR w KQkq - 0 1''"


section \<open>The position handler\<close>

text \<open>The loop \<open>while (is >> token && token != "moves") fen += token + " "\<close>.\<close>

function fen_loop :: "string \<Rightarrow> istringstream \<Rightarrow> string \<times> istringstream" where
  "fen_loop fen_text ss =
     (case get_token ss of
        (Some token, ss') \<Rightarrow>
          if token \<noteq> ''moves'' then fen_loop (fen_text @ token @ '' '') ss' else (fen_text, ss')
      | (None, ss') \<Rightarrow> (fen_text, ss'))"
  by pat_completeness auto
termination
  by (relation "measure (\<lambda>(fen_text, ss). remaining ss)") (auto dest: get_token_less [OF sym])

declare fen_loop.simps [simp del]

text \<open>
  The loop \<open>while (is >> token && (m = UCI::to_move(pos, token)) != MOVE_NONE)\<close>: each
  round appends a fresh undo record and applies the move.
\<close>

function replay ::
  "'p Position_api \<Rightarrow> 'p \<Rightarrow> StateInfo list \<Rightarrow> istringstream \<Rightarrow> 'p \<times> StateInfo list" where
  "replay api p sts ss =
     (case get_token ss of
        (Some token, ss') \<Rightarrow>
          (let m = to_move api p token in
           if m \<noteq> MOVE_NONE then replay api (do_move api p m) (sts @ [Blank]) ss'
           else (p, sts))
      | (None, ss') \<Rightarrow> (p, sts))"
  by pat_completeness auto
termination
  by (relation "measure (\<lambda>(api, p, sts, ss). remaining ss)") (auto dest: get_token_less [OF sym])

declare replay.simps [simp del]

text \<open>
  position(): the first token selects the start position (and the next token, "moves" if
  any, is consumed) or a FEN collected up to "moves"; any other first token returns at
  once. Then the undo-record list is replaced by a new one of one record, the Position is
  set from the FEN under the UCI_Chess960 option, and the move list is replayed.
\<close>

definition position :: "'p Position_api \<Rightarrow> 'p session \<Rightarrow> istringstream \<Rightarrow> 'p session" where
  "position api w ss0 =
     (let (t0, ss1) = get_token ss0;
          token = (case t0 of Some t \<Rightarrow> t | None \<Rightarrow> [])
      in
      case (if token = ''startpos'' then Some (StartFEN, snd (get_token ss1))
            else if token = ''fen'' then Some (fen_loop [] ss1)
            else None) of
        None \<Rightarrow> w
      | Some (fen_text, ss2) \<Rightarrow>
          (let sts0 = [Blank];
               p0 = set_pos api fen_text (option_bool (Options w) ''UCI_Chess960'');
               (p, sts) = replay api p0 sts0 ss2
           in w\<lparr> cur_pos := p, states := Some sts \<rparr>))"

text \<open>
  The spec's words for the replay: the longest prefix of the move tokens in which every
  token decodes, against the position reached so far, to a real move.
\<close>

fun legal_prefix :: "'p Position_api \<Rightarrow> 'p \<Rightarrow> string list \<Rightarrow> Move list" where
  "legal_prefix api p [] = []"
| "legal_prefix api p (t # ts) =
     (let m = to_move api p t in
      if m = MOVE_NONE then [] else m # legal_prefix api (do_move api p m) ts)"


section \<open>The setoption handler\<close>

text \<open>
  Modelled from the spec: OptionsMap::count and the assignment to an option live in
  uci.h and ucioption.cpp, which are not among the sources. A name is registered when the
  table has an entry for it; assigning to a registered option overwrites its value.
\<close>

definition Options_count :: "OptionsMap \<Rightarrow> string \<Rightarrow> bool" where
  "Options_count opts name = (opts name \<noteq> None)"

definition Options_assign :: "OptionsMap \<Rightarrow> string \<Rightarrow> string \<Rightarrow> OptionsMap" where
  "Options_assign opts name v = opts(name \<mapsto> v)"

text \<open>The loop \<open>while (is >> token && token != "value") name += (name.empty() ? "" : " ") + token\<close>.\<close>

function name_loop :: "string \<Rightarrow> istringstream \<Rightarrow> string \<times> istringstream" where
  "name_loop name ss =
     (case get_token ss of
        (Some token, ss') \<Rightarrow>
          if token \<noteq> ''value''
          then name_loop (name @ (if name = [] then [] else '' '') @ token) ss'
          else (name, ss')
      | (None, ss') \<Rightarrow> (name, ss'))"
  by pat_completeness auto
termination
  by (relation "measure (\<lambda>(name, ss). remaining ss)") (auto dest: get_token_less [OF sym])

declare name_loop.simps [simp del]

text \<open>The loop \<open>while (is >> token) value += (value.empty() ? "" : " ") + token\<close>.\<close>

function value_loop :: "string \<Rightarrow> istringstream \<Rightarrow> string" where
  "value_loop v ss =
     (case get_token ss of
        (Some token, ss') \<Rightarrow> value_loop (v @ (if v = [] then [] else '' '') @ token) ss'
      | (None, ss') \<Rightarrow> v)"
  by pat_completeness auto
termination
  by (relation "measure (\<lambda>(v, ss). remaining ss)") (auto dest: get_token_less [OF sym])

declare value_loop.simps [simp del]

text \<open>The name and the value that setoption() parses from its input.\<close>

definition setoption_args :: "istringstream \<Rightarrow> string \<times> string" where
  "setoption_args ss0 =
     (let ss1 = snd (get_token ss0);
          (name, ss2) = name_loop [] ss1
      in (name, value_loop [] ss2))"

definition setoption :: "'p session \<Rightarrow> istringstream \<Rightarrow> 'p session" where
  "setoption w ss0 =
     (let (name, v) = setoption_args ss0 in
      if Options_count (Options w) name
      then w\<lparr> Options := Options_assign (Options w) name v \<rparr>
      else w\<lparr> cout := cout w @ [''No such option: '' @ name] \<rparr>)"


section \<open>The go handler\<close>

text \<open>The inner loop \<open>while (is >> token) limits.searchmoves.push_back(UCI::to_move(pos, token))\<close>.\<close>

function searchmoves_loop ::
  "'p Position_api \<Rightarrow> 'p \<Rightarrow> LimitsType \<Rightarrow> istringstream \<Rightarrow> LimitsType \<times> istringstream" where
  "searchmoves_loop api p limits ss =
     (case get_token ss of
        (Some token, ss') \<Rightarrow>
          searchmoves_loop api p (limits\<lparr> searchmoves := searchmoves limits @ [to_move api p token] \<rparr>) ss'
      | (None, ss') \<Rightarrow> (limits, ss'))"
  by pat_completeness auto
termination
  by (relation "measure (\<lambda>(api, p, limits, ss). remaining ss)") (auto dest: get_token_less [OF sym])

declare searchmoves_loop.simps [simp del]

lemma searchmoves_loop_le: "remaining (snd (searchmoves_loop api p limits ss)) \<le> remaining ss"
proof (induction api p limits ss rule: searchmoves_loop.induct)
  case (1 api p limits ss)
  obtain t0 ss' where g: "get_token ss = (t0, ss')"
    by (cases "get_token ss")
  have le: "remaining ss' \<le> remaining ss"
    using get_token_le [of ss] g by simp
  show ?case
  proof (cases t0)
    case None
    with g le show ?thesis
      by (subst searchmoves_loop.simps) simp
  next
    case (Some token)
    from "1.IH" [OF g [symmetric] Some] le g Some show ?thesis
      by (subst searchmoves_loop.simps) simp
  qed
qed

text \<open>
  One keyword of the if-chain after "searchmoves": the numeric fields are read with the
  width of their type (int, and a 64-bit integer for nodes), "infinite" and "ponder" set
  their flags, any other token is skipped.
\<close>

definition go_keyword ::
  "string \<Rightarrow> LimitsType \<times> bool \<Rightarrow> istringstream \<Rightarrow> (LimitsType \<times> bool) \<times> istringstream" where
  "go_keyword token lp ss =
     (let limits = fst lp; ponderMode = snd lp in
      if token = ''wtime'' then
        (let (v, ss') = get_int 32 (time_WHITE limits) ss in ((limits\<lparr> time_WHITE := v \<rparr>, ponderMode), ss'))
      else if token = ''btime'' then
        (let (v, ss') = get_int 32 (time_BLACK limits) ss in ((limits\<lparr> time_BLACK := v \<rparr>, ponderMode), ss'))
      else if token = ''winc'' then
        (let (v, ss') = get_int 32 (inc_WHITE limits) ss in ((limits\<lparr> inc_WHITE := v \<rparr>, ponderMode), ss'))
      else if token = ''binc'' then
        (let (v, ss') = get_int 32 (inc_BLACK limits) ss in ((limits\<lparr> inc_BLACK := v \<rparr>, ponderMode), ss'))
      else if token = ''movestogo'' then
        (let (v, ss') = get_int 32 (movestogo limits) ss in ((limits\<lparr> movestogo := v \<rparr>, ponderMode), ss'))
      else if token = ''depth'' then
        (let (v, ss') = get_int 32 (depth limits) ss in ((limits\<lparr> depth := v \<rparr>, ponderMode), ss'))
      else if token = ''nodes'' then
        (let (v, ss') = get_int 64 (nodes limits) ss in ((limits\<lparr> nodes := v \<rparr>, ponderMode), ss'))
      else if token = ''movetime'' then
        (let (v, ss') = get_int 32 (movetime limits) ss in ((limits\<lparr> movetime := v \<rparr>, ponderMode), ss'))
      else if token = ''mate'' then
        (let (v, ss') = get_int 32 (mate limits) ss in ((limits\<lparr> mate := v \<rparr>, ponderMode), ss'))
      else if token = ''perft'' then
        (let (v, ss') = get_int 32 (perft limits) ss in ((limits\<lparr> perft := v \<rparr>, ponderMode), ss'))
      else if token = ''infinite'' then ((limits\<lparr> infinite_flag := 1 \<rparr>, ponderMode), ss)
      else if token = ''ponder'' then ((limits, True), ss)
      else ((limits, ponderMode), ss))"

lemma go_keyword_le: "remaining (snd (go_keyword token lp ss)) \<le> remaining ss"
  by (simp add: go_keyword_def Let_def split_beta get_int_le)

text \<open>The outer loop of go(): \<open>while (is >> token) if (token == "searchmoves") ... else if ...\<close>.\<close>

function go_loop ::
  "'p Position_api \<Rightarrow> 'p \<Rightarrow> LimitsType \<times> bool \<Rightarrow> istringstream \<Rightarrow> LimitsType \<times> bool" where
  "go_loop api p lp ss =
     (case get_token ss of
        (Some token, ss') \<Rightarrow>
          if token = ''searchmoves''
          then go_loop api p (fst (searchmoves_loop api p (fst lp) ss'), snd lp)
                 (snd (searchmoves_loop api p (fst lp) ss'))
          else go_loop api p (fst (go_keyword token lp ss')) (snd (go_keyword token lp ss'))
      | (None, ss') \<Rightarrow> lp)"
  by pat_completeness auto
termination
proof (relation "measure (\<lambda>(api, p, lp, ss). remaining ss)")
  show "wf (measure (\<lambda>(api, p, lp, ss). remaining ss))"
    by simp
next
  fix api :: "'p Position_api" and p :: 'p and lp :: "LimitsType \<times> bool"
    and ss ss' :: istringstream and t0 token
  assume g: "(t0, ss') = get_token ss" and t: "t0 = Some token"
  from g t have "remaining ss' < remaining ss"
    by (intro get_token_less [of ss token ss']) simp
  with searchmoves_loop_le [of api p "fst lp" ss']
  show "((api, p, (fst (searchmoves_loop api p (fst lp) ss'), snd lp),
          snd (searchmoves_loop api p (fst lp) ss')), api, p, lp, ss)
        \<in> measure (\<lambda>(api, p, lp, ss). remaining ss)"
    by simp
next
  fix api :: "'p Position_api" and p :: 'p and lp :: "LimitsType \<times> bool"
    and ss ss' :: istringstream and t0 token
  assume g: "(t0, ss') = get_token ss" and t: "t0 = Some token"
  from g t have "remaining ss' < remaining ss"
    by (intro get_token_less [of ss token ss']) simp
  with go_keyword_le [of token lp ss']
  show "((api, p, fst (go_keyword token lp ss'), snd (go_keyword token lp ss')), api, p, lp, ss)
        \<in> measure (\<lambda>(api, p, lp, ss). remaining ss)"
    by (simp add: split_beta)
qed

declare go_loop.simps [simp del]

text \<open>
  go(): the start time is read first, the request is parsed, and the Position, the
  undo-record pointer, the request and the ponder flag are handed to start_thinking.
\<close>

definition go ::
  "'p Position_api \<Rightarrow> 'p Threads_api \<Rightarrow> 'p session \<Rightarrow> istringstream \<Rightarrow> 'p session" where
  "go api eng w ss =
     (let limits0 = LimitsType0\<lparr> startTime := now eng (ticks w) \<rparr>;
          (limits, ponderMode) = go_loop api (cur_pos w) (limits0, False) ss
      in w\<lparr> ticks := Suc (ticks w),
            states := start_thinking eng (cur_pos w) (states w) limits ponderMode,
            thinking := thinking w @ [(limits, ponderMode)] \<rparr>)"


text \<open>
  The state at the head of the outer loop of go() after k rounds none of which read
  "searchmoves": the request and the ponder flag as set so far, and the rest of the line.
  None when the line ends, or "searchmoves" is read, before that.
\<close>

fun go_after ::
  "nat \<Rightarrow> (LimitsType \<times> bool) \<times> istringstream \<Rightarrow> ((LimitsType \<times> bool) \<times> istringstream) option" where
  "go_after 0 st = Some st"
| "go_after (Suc k) st =
     (case get_token (snd st) of
        (Some token, ss') \<Rightarrow>
          if token = ''searchmoves'' then None else go_after k (go_keyword token (fst st) ss')
      | (None, ss') \<Rightarrow> None)"


section \<open>The bench handler\<close>

text \<open>A 64-bit signed value after wrap-around (TimePoint arithmetic).\<close>

definition wrap64 :: "int \<Rightarrow> int" where
  "wrap64 x = (x + 2 ^ 63) mod 2 ^ 64 - 2 ^ 63"

text \<open>
  The loop over the command list. The token variable is declared outside the loop, so a
  blank command leaves the token of the command before it in place. Search::clear() for
  "ucinewgame" touches nothing of the session.
\<close>

fun bench_loop ::
  "'p Position_api \<Rightarrow> 'p Threads_api \<Rightarrow> 64 word \<Rightarrow> string list \<Rightarrow>
   'p session \<times> string \<times> 64 word \<times> 64 word \<Rightarrow> 'p session \<times> string \<times> 64 word \<times> 64 word" where
  "bench_loop api eng num [] st = st"
| "bench_loop api eng num (cmd # list) (w, token, nds, cnt) =
     (let (t0, ss) = get_token (istream cmd);
          token' = (case t0 of Some t \<Rightarrow> t | None \<Rightarrow> token)
      in bench_loop api eng num list
           (if token' = ''go'' then
              (let w1 = w\<lparr> cerr := cerr w @ [Txt (CHR 0x0A # ''Position: ''), Num (uint cnt),
                                              Txt ''/'', Num (uint num), Txt [CHR 0x0A]] \<rparr>;
                   w2 = go api eng w1 ss
               in (w2, token',
                   nds + nodes_searched eng (cur_pos w2) (fst (last (thinking w2))), cnt + 1))
            else if token' = ''setoption'' then (setoption w ss, token', nds, cnt)
            else if token' = ''position'' then (position api w ss, token', nds, cnt)
            else if token' = ''ucinewgame'' then (w, token', nds, cnt)
            else (w, token', nds, cnt)))"

text \<open>
  What bench() reports at the end: the elapsed time, the nodes searched, and the nodes per
  second, computed as 1000 * nodes / elapsed in unsigned 64-bit arithmetic.
\<close>

record bench_report =
  elapsed :: int
  total_nodes :: "64 word"
  nodes_per_second :: "64 word"

definition bench ::
  "'p Position_api \<Rightarrow> 'p Threads_api \<Rightarrow> 'p session \<Rightarrow> string \<Rightarrow> error + 'p session \<times> bench_report" where
  "bench api eng w args =
     (let list = setup_bench eng (cur_pos w) args;
          num = of_nat (length (filter (\<lambda>s. take 3 s = ''go '') list));
          t0 = now eng (ticks w);
          (w1, token, nds, cnt) = bench_loop api eng num list (w\<lparr> ticks := Suc (ticks w) \<rparr>, [], 0, 1);
          el = wrap64 (now eng (ticks w1) - t0 + 1);
          w2 = w1\<lparr> ticks := Suc (ticks w1) \<rparr>
      in if el = 0 then Inl DivideByZero
         else
           (let nps = (1000 * nds) div word_of_int el in
            Inr (w2\<lparr> cerr := cerr w2 @
                   [Txt (CHR 0x0A # ''===========================''),
                    Txt (CHR 0x0A # ''Total time (ms) : ''), Num el,
                    Txt (CHR 0x0A # ''Nodes searched  : ''), Num (uint nds),
                    Txt (CHR 0x0A # ''Nodes/second    : ''), Num (uint nps), Txt [CHR 0x0A]] \<rparr>,
                 \<lparr> elapsed = el, total_nodes = nds, nodes_per_second = nps \<rparr>)))"


section \<open>The move validator (position_make_move)\<close>

text \<open>std::string::find for one character from a start index, and erase of one character.\<close>

definition find_char :: "char \<Rightarrow> nat \<Rightarrow> string \<Rightarrow> nat option" where
  "find_char c start s =
     (let i = start + length (takeWhile (\<lambda>x. x \<noteq> c) (drop start s))
      in if i < length s then Some i else None)"

definition erase1 :: "string \<Rightarrow> nat \<Rightarrow> string" where
  "erase1 s i = take i s @ drop (Suc i) s"

text \<open>
  The edit of the captured FEN after a castling move, for the king-side letter kc and the
  queen-side letter qc of the side that moved: find the first space (asserted to exist);
  look for kc from there, and for qc if kc is absent; erase the character found if it is kc;
  then look for qc from the first space again and erase it if found.
\<close>

definition erase_rights :: "char \<Rightarrow> char \<Rightarrow> string \<Rightarrow> error + string" where
  "erase_rights kc qc fen_saved =
     (case find_char CHR '' '' 0 fen_saved of
        None \<Rightarrow> Inl AssertionFailed
      | Some sp_w \<Rightarrow>
          (let sp = (case find_char kc sp_w fen_saved of
                       None \<Rightarrow> find_char qc sp_w fen_saved
                     | Some i \<Rightarrow> Some i);
               fen1 = (case sp of
                         None \<Rightarrow> fen_saved
                       | Some i \<Rightarrow> if fen_saved ! i = kc then erase1 fen_saved i else fen_saved);
               fen2 = (case find_char qc sp_w fen1 of
                         None \<Rightarrow> fen1
                       | Some i \<Rightarrow> if fen1 ! i = qc then erase1 fen1 i else fen1)
           in Inr fen2))"

text \<open>
  position_make_move(). With no legal move the game end is announced and nothing else
  happens. Otherwise the token is decoded; a move that is not ok ends with "Game over"; a
  legal move is applied, the FEN is captured, the consistency check is run, the move is
  undone, the FEN is edited when the move was a castling move, and the FEN is fed to the
  position handler. A side to move other than WHITE or BLACK fails an assertion.
\<close>

definition position_make_move ::
  "'p Position_api \<Rightarrow> 'p session \<Rightarrow> istringstream \<Rightarrow> error + 'p session" where
  "position_make_move api w ss =
     (let current_position = cur_pos w;
          us = side_to_move api current_position;
          moveList = MoveList_LEGAL api current_position
      in
      if length moveList = 0 then
        (if checkers api current_position \<noteq> 0 then
           (if us = WHITE then Inr (w\<lparr> cout := cout w @ [''Game over: black wins''] \<rparr>)
            else if us = BLACK then Inr (w\<lparr> cout := cout w @ [''Game over: white wins''] \<rparr>)
            else Inl AssertionFailed)
         else Inr (w\<lparr> cout := cout w @ [''Game over: draw''] \<rparr>))
      else
        (let token = (case fst (get_token ss) of Some t \<Rightarrow> t | None \<Rightarrow> []);
             move = to_move api current_position token
         in
         if \<not> is_ok move then Inr (w\<lparr> cout := cout w @ [''Game over''] \<rparr>)
         else if legal api current_position move then
           (let p1 = do_move api current_position move;
                fen_saved = fen api p1
            in
            if \<not> pos_is_ok api p1
            then Inr (w\<lparr> cur_pos := undo_move api p1 move, cout := cout w @ [''Game over''] \<rparr>)
            else
              (let p2 = undo_move api p1 move in
               case (if type_of move = CASTLING then
                       (if side_to_move api p2 = WHITE
                        then erase_rights CHR ''K'' CHR ''Q'' fen_saved
                        else if side_to_move api p2 = BLACK
                        then erase_rights CHR ''k'' CHR ''q'' fen_saved
                        else Inl AssertionFailed)
                     else Inr fen_saved) of
                 Inl e \<Rightarrow> Inl e
               | Inr fen_text \<Rightarrow>
                   Inr (position api (w\<lparr> cur_pos := p2 \<rparr>) (istream (''fen '' @ fen_text)))))
         else Inr w))"


section \<open>A scripted Position, to run the handlers on concrete inputs\<close>

text \<open>
  A stand-in for the collaborator: a position remembers the FEN text it was set from, the
  variant flag and the moves applied since; what the engine would answer there (legal
  moves, side to move, checkers, FEN text, consistency) is looked up in a book.
\<close>

record scripted =
  s_fen :: string
  s_960 :: bool
  s_line :: "Move list"

record snapshot =
  sn_legal :: "Move list"
  sn_side :: Color
  sn_checkers :: "64 word"
  sn_fen :: string
  sn_ok :: bool

definition scripted_api :: "(string \<Rightarrow> Move list \<Rightarrow> snapshot) \<Rightarrow> scripted Position_api" where
  "scripted_api book =
     \<lparr> set_pos = (\<lambda>f c. \<lparr> s_fen = f, s_960 = c, s_line = [] \<rparr>),
       do_move = (\<lambda>p m. p\<lparr> s_line := s_line p @ [m] \<rparr>),
       undo_move = (\<lambda>p m. p\<lparr> s_line := butlast (s_line p) \<rparr>),
       MoveList_LEGAL = (\<lambda>p. sn_legal (book (s_fen p) (s_line p))),
       is_chess960 = s_960,
       side_to_move = (\<lambda>p. sn_side (book (s_fen p) (s_line p))),
       checkers = (\<lambda>p. sn_checkers (book (s_fen p) (s_line p))),
       legal = (\<lambda>p m. m \<in> set (sn_legal (book (s_fen p) (s_line p)))),
       fen = (\<lambda>p. sn_fen (book (s_fen p) (s_line p))),
       pos_is_ok = (\<lambda>p. sn_ok (book (s_fen p) (s_line p))) \<rparr>"

definition no_snapshot :: snapshot where
  "no_snapshot = \<lparr> sn_legal = [], sn_side = WHITE, sn_checkers = 0, sn_fen = [], sn_ok = True \<rparr>"

text \<open>
  King f1 and rook h1 with the king-side right, black king e8, white to move, the variant
  flag off ("4k3/8/8/8/8/8/8/5K1R w K - 0 1"): the rook's moves, the king's steps, then
  castling, encoded as king takes rook.
\<close>

definition f1h1_legal :: "Move list" where
  "f1h1_legal =
     [make_move 7 6, make_move 7 15, make_move 7 23, make_move 7 31, make_move 7 39,
      make_move 7 47, make_move 7 55, make_move 7 63,
      make_move 5 4, make_move 5 6, make_move 5 12, make_move 5 13, make_move 5 14,
      make_T CASTLING 5 7 KNIGHT]"

definition f1h1_book :: "string \<Rightarrow> Move list \<Rightarrow> snapshot" where
  "f1h1_book f line =
     (if f = ''4k3/8/8/8/8/8/8/5K1R w K - 0 1 '' \<and> line = []
      then \<lparr> sn_legal = f1h1_legal, sn_side = WHITE, sn_checkers = 0,
             sn_fen = ''4k3/8/8/8/8/8/8/5K1R w K - 0 1'', sn_ok = True \<rparr>
      else no_snapshot)"

definition f1h1_pos :: scripted where
  "f1h1_pos = \<lparr> s_fen = ''4k3/8/8/8/8/8/8/5K1R w K - 0 1 '', s_960 = False, s_line = [] \<rparr>"

text \<open>
  White pawn a7, white king a1, black king h7, white to move
  ("8/P6k/8/8/8/8/8/K7 w - - 0 1"): the four promotions on a8, then the king's steps.
\<close>

definition a7_legal :: "Move list" where
  "a7_legal =
     [make_T PROMOTION 48 56 QUEEN, make_T PROMOTION 48 56 ROOK, make_T PROMOTION 48 56 BISHOP,
      make_T PROMOTION 48 56 KNIGHT, make_move 0 1, make_move 0 8, make_move 0 9]"

definition a7_book :: "string \<Rightarrow> Move list \<Rightarrow> snapshot" where
  "a7_book f line =
     (if f = ''8/P6k/8/8/8/8/8/K7 w - - 0 1 '' \<and> line = []
      then \<lparr> sn_legal = a7_legal, sn_side = WHITE, sn_checkers = 0,
             sn_fen = ''8/P6k/8/8/8/8/8/K7 w - - 0 1'', sn_ok = True \<rparr>
      else if f = ''8/P6k/8/8/8/8/8/K7 w - - 0 1 '' \<and> line = [make_T PROMOTION 48 56 QUEEN]
      then \<lparr> sn_legal = [make_move 55 46, make_move 55 47, make_move 55 54],
             sn_side = BLACK, sn_checkers = 0,
             sn_fen = ''Q7/7k/8/8/8/8/8/K7 b - - 0 1'', sn_ok = True \<rparr>
      else no_snapshot)"

definition a7_pos :: scripted where
  "a7_pos = \<lparr> s_fen = ''8/P6k/8/8/8/8/8/K7 w - - 0 1 '', s_960 = False, s_line = [] \<rparr>"


text \<open>A session to run the handlers on: three undo records, two options.\<close>

definition demo_session :: "scripted session" where
  "demo_session =
     \<lparr> cur_pos = f1h1_pos, states = Some [Blank, Blank, Blank],
       Options = [''UCI_Chess960'' \<mapsto> ''false'', ''Hash'' \<mapsto> ''16''], cout = [],
       cerr = [], ticks = 0, thinking = [] \<rparr>"


text \<open>
  Three finished games: white is mated (fool's mate, checker on h4), black is mated on the
  back rank (checker on a8), black is stalemated.
\<close>

definition endings_book :: "string \<Rightarrow> Move list \<Rightarrow> snapshot" where
  "endings_book f line =
     (if f = ''rnb1kbnr/pppp1ppp/8/4p3/6Pq/5P2/PPPPP2P/RNBQKBNR w KQkq - 1 3 ''
      then \<lparr> sn_legal = [], sn_side = WHITE, sn_checkers = 2147483648, sn_fen = f, sn_ok = True \<rparr>
      else if f = ''R5k1/5ppp/8/8/8/8/8/6K1 b - - 0 1 ''
      then \<lparr> sn_legal = [], sn_side = BLACK, sn_checkers = 72057594037927936, sn_fen = f,
             sn_ok = True \<rparr>
      else if f = ''7k/5Q2/6K1/8/8/8/8/8 b - - 0 1 ''
      then \<lparr> sn_legal = [], sn_side = BLACK, sn_checkers = 0, sn_fen = f, sn_ok = True \<rparr>
      else no_snapshot)"

definition at_fen :: "string \<Rightarrow> scripted session" where
  "at_fen f = demo_session\<lparr> cur_pos := \<lparr> s_fen = f, s_960 = False, s_line = [] \<rparr> \<rparr>"

text \<open>
  A collaborator whose consistency check fails after the king's step a1b1 from the
  position of the pawn on a7.
\<close>

definition faulty_book :: "string \<Rightarrow> Move list \<Rightarrow> snapshot" where
  "faulty_book f line =
     (if line = [make_move 0 1] then (a7_book f line)\<lparr> sn_ok := False \<rparr> else a7_book f line)"


text \<open>The spec's words for a multi-word name or value: the tokens joined by single spaces.\<close>

fun unwords :: "string list \<Rightarrow> string" where
  "unwords [] = []"
| "unwords [t] = t"
| "unwords (t # ts) = t @ '' '' @ unwords ts"


text \<open>
  An engine for the scripted Position: a clock that stands still at 1000 ms, a search
  that takes over the undo records and reports 1234 nodes, and a bench list without a go.
\<close>

definition demo_engine :: "scripted Threads_api" where
  "demo_engine =
     \<lparr> now = (\<lambda>k. 1000),
       start_thinking = (\<lambda>p sts limits ponderMode. None),
       nodes_searched = (\<lambda>p limits. 1234),
       setup_bench = (\<lambda>p args. [''setoption name Hash value 32'', ''ucinewgame'',
                                  ''position startpos'']) \<rparr>"


text \<open>
  The castling-rights letters of a side in a FEN (upper case for WHITE, lower case for
  BLACK), the other side, and the castling-rights field of a FEN: its third field, the
  fields being separated by single spaces.
\<close>

definition is_own :: "Color \<Rightarrow> char \<Rightarrow> bool" where
  "is_own us c =
     (case us of
        WHITE \<Rightarrow> c = CHR ''K'' \<or> c = CHR ''Q''
      | BLACK \<Rightarrow> c = CHR ''k'' \<or> c = CHR ''q''
      | COLOR_NB \<Rightarrow> False)"

definition opponent :: "Color \<Rightarrow> Color" where
  "opponent us = (case us of WHITE \<Rightarrow> BLACK | BLACK \<Rightarrow> WHITE | COLOR_NB \<Rightarrow> COLOR_NB)"

definition castling_field :: "string \<Rightarrow> string" where
  "castling_field f =
     takeWhile (\<lambda>c. c \<noteq> CHR '' '')
       (drop 1 (dropWhile (\<lambda>c. c \<noteq> CHR '' '')
          (drop 1 (dropWhile (\<lambda>c. c \<noteq> CHR '' '') f))))"

text \<open>
  White king e1 and rook h1 with the king-side right, black king e8 and rook a8 with the
  queen-side right, white to move ("r3k3/8/8/8/8/8/8/4K2R w Kq - 0 1"): the rook's moves,
  the king's steps, then castling (king takes rook, e1h1, shown as "e1g1"). After it black
  has the rook's moves, three king steps and castling.
\<close>

definition e1h1_legal :: "Move list" where
  "e1h1_legal =
     [make_move 7 5, make_move 7 6, make_move 7 15, make_move 7 23, make_move 7 31,
      make_move 7 39, make_move 7 47, make_move 7 55, make_move 7 63,
      make_move 4 3, make_move 4 5, make_move 4 11, make_move 4 12, make_move 4 13,
      make_T CASTLING 4 7 KNIGHT]"

definition after_castling_legal :: "Move list" where
  "after_castling_legal =
     [make_move 56 0, make_move 56 8, make_move 56 16, make_move 56 24, make_move 56 32,
      make_move 56 40, make_move 56 48, make_move 56 57, make_move 56 58, make_move 56 59,
      make_move 60 51, make_move 60 52, make_move 60 59,
      make_T CASTLING 60 56 KNIGHT]"

definition castle_book :: "string \<Rightarrow> Move list \<Rightarrow> snapshot" where
  "castle_book f line =
     (if f = ''r3k3/8/8/8/8/8/8/4K2R w Kq - 0 1 '' \<and> line = []
      then \<lparr> sn_legal = e1h1_legal, sn_side = WHITE, sn_checkers = 0,
             sn_fen = ''r3k3/8/8/8/8/8/8/4K2R w Kq - 0 1'', sn_ok = True \<rparr>
      else if f = ''r3k3/8/8/8/8/8/8/4K2R w Kq - 0 1 '' \<and> line = [make_T CASTLING 4 7 KNIGHT]
      then \<lparr> sn_legal = after_castling_legal, sn_side = BLACK, sn_checkers = 0,
             sn_fen = ''r3k3/8/8/8/8/8/8/5RK1 b q - 1 1'', sn_ok = True \<rparr>
      else no_snapshot)"

text \<open>
  The same game with a collaborator whose FEN after the move still carries the mover's
  letter, so that the edit of the validator has something to erase.
\<close>

definition late_book :: "string \<Rightarrow> Move list \<Rightarrow> snapshot" where
  "late_book f line =
     (if line = [make_T CASTLING 4 7 KNIGHT]
      then (castle_book f line)\<lparr> sn_fen := ''r3k3/8/8/8/8/8/8/5RK1 b Kq - 1 1'' \<rparr>
      else castle_book f line)"


section \<open>Properties of the codec\<close>

lemmas codec_eval = make_T_def make_move_def PROMOTION_def CASTLING_def QUEEN_def KNIGHT_def
  ROOK_def BISHOP_def UCI_move_def Let_def from_sq_def to_sq_def type_of_def promotion_type_def
  square_def file_of_def rank_of_def make_square_def FILE_G_def FILE_C_def MOVE_NONE_def
  MOVE_NULL_def char_of_def bit_Suc_0_iff to_move_def normalise_def tolower_def encodings_def

lemmas book_eval = scripted_api_def a7_book_def a7_pos_def a7_legal_def f1h1_book_def
  f1h1_pos_def f1h1_legal_def

lemma find_in_set: "find P xs = Some x \<Longrightarrow> x \<in> set xs \<and> P x"
  by (induction xs) (auto split: if_splits)










text \<open>
  C5 (amended). For every position and every input string, to_move returns either the
  no-move sentinel or a legal move of that position; and a string whose normalised form
  (fifth character lowered when the length is five) is not the encoding of a legal move,
  under the position's variant, decodes to the no-move sentinel.
\<close>

theorem to_move_none_or_legal:
  "(to_move api pos str = MOVE_NONE \<or> to_move api pos str \<in> set (MoveList_LEGAL api pos))
   \<and> (normalise str \<notin> set (encodings api pos) \<longrightarrow> to_move api pos str = MOVE_NONE)"
proof -
  let ?P = "\<lambda>m. normalise str = UCI_move m (is_chess960 api pos)"
  show ?thesis
  proof (cases "find ?P (MoveList_LEGAL api pos)")
    case None
    then show ?thesis by (simp add: to_move_def)
  next
    case (Some m)
    then have "m \<in> set (MoveList_LEGAL api pos) \<and> ?P m"
      by (rule find_in_set)
    with Some show ?thesis
      by (auto simp: to_move_def encodings_def)
  qed
qed

theorem to_move_none_or_legal_witness:
  "normalise ''a1a3'' \<notin> set (encodings (scripted_api a7_book) a7_pos)
   \<and> to_move (scripted_api a7_book) a7_pos ''a1a3'' = MOVE_NONE"
proof -
  have h: "normalise ''a1a3'' \<notin> set (encodings (scripted_api a7_book) a7_pos)"
    by (simp add: codec_eval book_eval)
  show ?thesis
    using h to_move_none_or_legal [of "scripted_api a7_book" a7_pos "''a1a3''"] by blast
qed

text \<open>
  C5 as stated fails: "a7a8Q" is not the encoding of any legal move (the promotion
  encodes as "a7a8q"), and it decodes to the promotion, not to the no-move sentinel.
\<close>

theorem to_move_none_or_legal_counterexample:
  "''a7a8Q'' \<notin> set (encodings (scripted_api a7_book) a7_pos)
   \<and> to_move (scripted_api a7_book) a7_pos ''a7a8Q'' = make_T PROMOTION 48 56 QUEEN
   \<and> make_T PROMOTION 48 56 QUEEN \<noteq> MOVE_NONE"
  by (simp add: codec_eval book_eval)


section \<open>Properties of the position handler\<close>

lemma get_token_None_tokens: "get_token ss = (None, ss') \<Longrightarrow> tokens ss' = []"
  by (auto simp: tokens.simps get_token_def Let_def split: if_splits)

lemma tokens_Some: "get_token ss = (Some t, ss') \<Longrightarrow> tokens ss = t # tokens ss'"
  by (simp add: tokens.simps)

lemma tokens_None: "get_token ss = (None, ss') \<Longrightarrow> tokens ss = []"
  by (simp add: tokens.simps)

lemma replay_eq:
  "replay api p sts ss =
     (foldl (do_move api) p (legal_prefix api p (tokens ss)),
      sts @ replicate (length (legal_prefix api p (tokens ss))) Blank)"
proof (induction api p sts ss rule: replay.induct)
  case (1 api p sts ss)
  obtain t0 ss' where g: "get_token ss = (t0, ss')"
    by (cases "get_token ss")
  show ?case
  proof (cases t0)
    case None
    with g show ?thesis
      by (subst replay.simps) (simp add: tokens_None)
  next
    case (Some token)
    with g have tk: "tokens ss = token # tokens ss'"
      by (simp add: tokens_Some)
    show ?thesis
    proof (cases "to_move api p token = MOVE_NONE")
      case True
      with g Some tk show ?thesis
        by (subst replay.simps) (simp)
    next
      case False
      from "1.IH" [OF g [symmetric] Some refl False]
      have "replay api (do_move api p (to_move api p token)) (sts @ [Blank]) ss' =
              (foldl (do_move api) (do_move api p (to_move api p token))
                 (legal_prefix api (do_move api p (to_move api p token)) (tokens ss')),
               (sts @ [Blank]) @ replicate
                 (length (legal_prefix api (do_move api p (to_move api p token)) (tokens ss'))) Blank)"
        .
      with g Some tk False show ?thesis
        by (subst replay.simps)
           (simp add: Let_def replicate_app_Cons_same)
    qed
  qed
qed

lemma fen_loop_eq:
  "fen_loop acc ss =
     (acc @ concat (map (\<lambda>t. t @ '' '') (takeWhile (\<lambda>t. t \<noteq> ''moves'') (tokens ss))),
      snd (fen_loop acc ss))
   \<and> tokens (snd (fen_loop acc ss)) = drop 1 (dropWhile (\<lambda>t. t \<noteq> ''moves'') (tokens ss))"
proof (induction acc ss rule: fen_loop.induct)
  case (1 acc ss)
  obtain t0 ss' where g: "get_token ss = (t0, ss')"
    by (cases "get_token ss")
  show ?case
  proof (cases t0)
    case None
    with g have "fen_loop acc ss = (acc, ss')"
      by (subst fen_loop.simps) simp
    moreover from g None have "tokens ss = []" "tokens ss' = []"
      by (simp_all del: tokens.simps add: tokens_None get_token_None_tokens)
    ultimately show ?thesis
      by (simp)
  next
    case (Some token)
    with g have tk: "tokens ss = token # tokens ss'"
      by (simp add: tokens_Some)
    show ?thesis
    proof (cases "token = ''moves''")
      case True
      with g Some have "fen_loop acc ss = (acc, ss')"
        by (subst fen_loop.simps) simp
      with tk True show ?thesis
        by (simp)
    next
      case False
      with g Some have eq: "fen_loop acc ss = fen_loop (acc @ token @ '' '') ss'"
        by (subst fen_loop.simps) simp
      from "1.IH" [OF g [symmetric] Some False] tk False show ?thesis
        unfolding eq by (simp)
    qed
  qed
qed

lemma tokens_Cons_get_token:
  assumes "tokens ss = t # rest"
  shows "\<exists>ss1. get_token ss = (Some t, ss1) \<and> tokens ss1 = rest"
proof (cases "get_token ss")
  case (Pair t0 ss1)
  show ?thesis
  proof (cases t0)
    case None
    with Pair have "tokens ss = []" by (simp add: tokens_None)
    with assms show ?thesis by simp
  next
    case (Some u)
    with Pair have "tokens ss = u # tokens ss1" by (simp add: tokens_Some)
    with assms Pair Some show ?thesis by simp
  qed
qed

lemma tokens_after_get_token: "tokens (snd (get_token ss)) = drop 1 (tokens ss)"
proof (cases "get_token ss")
  case (Pair t0 ss1)
  show ?thesis
  proof (cases t0)
    case None
    with Pair show ?thesis by (simp add: tokens_None get_token_None_tokens)
  next
    case (Some u)
    with Pair show ?thesis by (simp add: tokens_Some)
  qed
qed

lemma position_after_setup:
  "(let sts0 = [Blank]; p0 = base; (p, sts) = replay api p0 sts0 ss2
    in w\<lparr> cur_pos := p, states := Some sts \<rparr>) =
   w\<lparr> cur_pos := foldl (do_move api) base (legal_prefix api base (tokens ss2)),
      states := Some (replicate (Suc (length (legal_prefix api base (tokens ss2)))) Blank) \<rparr>"
  by (simp add: replay_eq Let_def)

text \<open>
  C3. For every position command, after the handler returns the Position is the base
  position (the start position, or the one set from the FEN tokens joined with spaces,
  under the UCI_Chess960 option) with exactly the longest prefix of the move tokens that
  decodes to real moves applied in order: replay halts at the first token that decodes to
  the no-move sentinel, each token being decoded against the position reached so far. The
  undo-record list is a new one, of length one plus the number of moves applied. The move
  tokens are those after the "moves" keyword; after "startpos" the handler consumes the
  next token as that keyword.
\<close>

theorem position_replays_longest_legal_prefix:
  assumes "tokens ss = ''startpos'' # rest \<and> fen_text = StartFEN \<and> ts = drop 1 rest
         \<or> tokens ss = ''fen'' # rest
           \<and> fen_text = concat (map (\<lambda>t. t @ '' '') (takeWhile (\<lambda>t. t \<noteq> ''moves'') rest))
           \<and> ts = drop 1 (dropWhile (\<lambda>t. t \<noteq> ''moves'') rest)"
  shows "position api w ss =
           (let base = set_pos api fen_text (option_bool (Options w) ''UCI_Chess960'');
                ms = legal_prefix api base ts
            in w\<lparr> cur_pos := foldl (do_move api) base ms,
                  states := Some (replicate (Suc (length ms)) Blank) \<rparr>)"
  using assms
proof (elim disjE conjE)
  assume tk: "tokens ss = ''startpos'' # rest" and f: "fen_text = StartFEN" and ts: "ts = drop 1 rest"
  from tokens_Cons_get_token [OF tk] obtain ss1
    where g: "get_token ss = (Some ''startpos'', ss1)" and r: "tokens ss1 = rest"
    by blast
  have "tokens (snd (get_token ss1)) = ts"
    by (simp add: tokens_after_get_token r ts)
  with g f show ?thesis
    by (simp add: position_def position_after_setup [unfolded Let_def] Let_def)
next
  assume tk: "tokens ss = ''fen'' # rest"
    and f: "fen_text = concat (map (\<lambda>t. t @ '' '') (takeWhile (\<lambda>t. t \<noteq> ''moves'') rest))"
    and ts: "ts = drop 1 (dropWhile (\<lambda>t. t \<noteq> ''moves'') rest)"
  from tokens_Cons_get_token [OF tk] obtain ss1
    where g: "get_token ss = (Some ''fen'', ss1)" and r: "tokens ss1 = rest"
    by blast
  obtain ftxt ss2 where fl: "fen_loop [] ss1 = (ftxt, ss2)"
    by (cases "fen_loop [] ss1")
  with fen_loop_eq [of "[]" ss1] r f ts have "ftxt = fen_text" and "tokens ss2 = ts"
    by simp_all
  with g fl show ?thesis
    by (simp add: position_def position_after_setup [unfolded Let_def] Let_def)
qed

text \<open>
  C9. If the first token handed to the position handler is neither "startpos" nor "fen"
  (or there is no token at all), the handler returns at once and the whole session, the
  Position and the undo-record list included, is as it was.
\<close>

theorem position_unknown_first_token:
  assumes "fst (get_token ss) \<noteq> Some ''startpos''" and "fst (get_token ss) \<noteq> Some ''fen''"
  shows "position api w ss = w"
proof (cases "get_token ss")
  case (Pair t0 ss1)
  with assms show ?thesis
    by (cases t0) (simp_all add: position_def)
qed

text \<open>
  A run: the promotion is applied, "h7h8" is not legal for black and stops the replay, so
  the legal "h7h6" after it is never applied; two undo records.
\<close>

theorem position_replays_longest_legal_prefix_witness:
  "tokens (istream ''fen 8/P6k/8/8/8/8/8/K7 w - - 0 1 moves a7a8q h7h8 h7h6'') =
     [''fen'', ''8/P6k/8/8/8/8/8/K7'', ''w'', ''-'', ''-'', ''0'', ''1'', ''moves'',
      ''a7a8q'', ''h7h8'', ''h7h6'']
   \<and> position (scripted_api a7_book) demo_session
        (istream ''fen 8/P6k/8/8/8/8/8/K7 w - - 0 1 moves a7a8q h7h8 h7h6'') =
      demo_session
        \<lparr> cur_pos := \<lparr> s_fen = ''8/P6k/8/8/8/8/8/K7 w - - 0 1 '', s_960 = False,
                       s_line = [make_T PROMOTION 48 56 QUEEN] \<rparr>,
          states := Some [Blank, Blank] \<rparr>"
proof -
  let ?ss = "istream ''fen 8/P6k/8/8/8/8/8/K7 w - - 0 1 moves a7a8q h7h8 h7h6''"
  let ?rest = "[''8/P6k/8/8/8/8/8/K7'', ''w'', ''-'', ''-'', ''0'', ''1'', ''moves'',
      ''a7a8q'', ''h7h8'', ''h7h6'']"
  have tk: "tokens ?ss = ''fen'' # ?rest"
    by code_simp
  have hyp: "tokens ?ss = ''startpos'' # ?rest \<and> ''8/P6k/8/8/8/8/8/K7 w - - 0 1 '' = StartFEN
               \<and> [''a7a8q'', ''h7h8'', ''h7h6''] = drop 1 ?rest
         \<or> tokens ?ss = ''fen'' # ?rest
           \<and> ''8/P6k/8/8/8/8/8/K7 w - - 0 1 '' =
               concat (map (\<lambda>t. t @ '' '') (takeWhile (\<lambda>t. t \<noteq> ''moves'') ?rest))
           \<and> [''a7a8q'', ''h7h8'', ''h7h6''] = drop 1 (dropWhile (\<lambda>t. t \<noteq> ''moves'') ?rest)"
    using tk by simp
  have ob: "option_bool (Options demo_session) ''UCI_Chess960'' = False"
    by (simp add: demo_session_def option_bool_def)
  have lp: "legal_prefix (scripted_api a7_book)
              \<lparr> s_fen = ''8/P6k/8/8/8/8/8/K7 w - - 0 1 '', s_960 = False, s_line = [] \<rparr>
              [''a7a8q'', ''h7h8'', ''h7h6''] = [make_T PROMOTION 48 56 QUEEN]"
    by (simp add: codec_eval book_eval)
  have sp: "set_pos (scripted_api a7_book) ''8/P6k/8/8/8/8/8/K7 w - - 0 1 '' False =
              \<lparr> s_fen = ''8/P6k/8/8/8/8/8/K7 w - - 0 1 '', s_960 = False, s_line = [] \<rparr>"
    by (simp add: scripted_api_def)
  have dm: "do_move (scripted_api a7_book)
              \<lparr> s_fen = ''8/P6k/8/8/8/8/8/K7 w - - 0 1 '', s_960 = False, s_line = [] \<rparr>
              (make_T PROMOTION 48 56 QUEEN) =
            \<lparr> s_fen = ''8/P6k/8/8/8/8/8/K7 w - - 0 1 '', s_960 = False,
              s_line = [make_T PROMOTION 48 56 QUEEN] \<rparr>"
    by (simp add: scripted_api_def)
  from position_replays_longest_legal_prefix [OF hyp, of "scripted_api a7_book" demo_session]
  have "position (scripted_api a7_book) demo_session ?ss =
      demo_session
        \<lparr> cur_pos := \<lparr> s_fen = ''8/P6k/8/8/8/8/8/K7 w - - 0 1 '', s_960 = False,
                       s_line = [make_T PROMOTION 48 56 QUEEN] \<rparr>,
          states := Some [Blank, Blank] \<rparr>"
    by (simp only: ob sp lp Let_def foldl.simps dm list.size replicate.simps One_nat_def
          add_0 replicate_Suc replicate_0 length_Cons)
  with tk show ?thesis
    by (intro conjI)
qed

theorem position_unknown_first_token_witness:
  "fst (get_token (istream ''bogus moves e2e4'')) = Some ''bogus''
   \<and> position (scripted_api a7_book) demo_session (istream ''bogus moves e2e4'') = demo_session"
proof -
  have g: "fst (get_token (istream ''bogus moves e2e4'')) = Some ''bogus''"
    by code_simp
  have h1: "fst (get_token (istream ''bogus moves e2e4'')) \<noteq> Some ''startpos''"
    unfolding g by simp
  have h2: "fst (get_token (istream ''bogus moves e2e4'')) \<noteq> Some ''fen''"
    unfolding g by simp
  from g position_unknown_first_token [OF h1 h2] show ?thesis
    by (intro conjI)
qed


section \<open>Properties of the validator\<close>

text \<open>
  C4. When the validator is invoked on a Position with no legal moves, it reports the game
  end and touches nothing but the output: in check with WHITE to move it announces
  "Game over: black wins", in check with BLACK to move "Game over: white wins", and not in
  check "Game over: draw"; whenever it returns a session, the Position and the undo-record
  list are those before the call.
\<close>

theorem validator_no_legal_moves:
  assumes "MoveList_LEGAL api (cur_pos w) = []"
  shows "(checkers api (cur_pos w) \<noteq> 0 \<and> side_to_move api (cur_pos w) = WHITE \<longrightarrow>
            position_make_move api w ss = Inr (w\<lparr> cout := cout w @ [''Game over: black wins''] \<rparr>))
       \<and> (checkers api (cur_pos w) \<noteq> 0 \<and> side_to_move api (cur_pos w) = BLACK \<longrightarrow>
            position_make_move api w ss = Inr (w\<lparr> cout := cout w @ [''Game over: white wins''] \<rparr>))
       \<and> (checkers api (cur_pos w) = 0 \<longrightarrow>
            position_make_move api w ss = Inr (w\<lparr> cout := cout w @ [''Game over: draw''] \<rparr>))
       \<and> (\<forall>w'. position_make_move api w ss = Inr w' \<longrightarrow>
            cur_pos w' = cur_pos w \<and> states w' = states w)"
  using assms by (auto simp: position_make_move_def Let_def split: if_splits)

text \<open>
  The three announcements, on a mated white king, a mated black king and a stalemate.
\<close>

theorem validator_no_legal_moves_witness:
  "position_make_move (scripted_api endings_book)
      (at_fen ''rnb1kbnr/pppp1ppp/8/4p3/6Pq/5P2/PPPPP2P/RNBQKBNR w KQkq - 1 3 '') (istream ''e2e4'')
     = Inr ((at_fen ''rnb1kbnr/pppp1ppp/8/4p3/6Pq/5P2/PPPPP2P/RNBQKBNR w KQkq - 1 3 '')
              \<lparr> cout := [''Game over: black wins''] \<rparr>)
   \<and> position_make_move (scripted_api endings_book)
      (at_fen ''R5k1/5ppp/8/8/8/8/8/6K1 b - - 0 1 '') (istream ''g8h8'')
     = Inr ((at_fen ''R5k1/5ppp/8/8/8/8/8/6K1 b - - 0 1 '') \<lparr> cout := [''Game over: white wins''] \<rparr>)
   \<and> position_make_move (scripted_api endings_book)
      (at_fen ''7k/5Q2/6K1/8/8/8/8/8 b - - 0 1 '') (istream ''h8g8'')
     = Inr ((at_fen ''7k/5Q2/6K1/8/8/8/8/8 b - - 0 1 '') \<lparr> cout := [''Game over: draw''] \<rparr>)"
proof -
  let ?A = "scripted_api endings_book"
  let ?w1 = "at_fen ''rnb1kbnr/pppp1ppp/8/4p3/6Pq/5P2/PPPPP2P/RNBQKBNR w KQkq - 1 3 ''"
  let ?w2 = "at_fen ''R5k1/5ppp/8/8/8/8/8/6K1 b - - 0 1 ''"
  let ?w3 = "at_fen ''7k/5Q2/6K1/8/8/8/8/8 b - - 0 1 ''"
  have e1: "MoveList_LEGAL ?A (cur_pos ?w1) = []" and c1: "checkers ?A (cur_pos ?w1) \<noteq> 0"
    and s1: "side_to_move ?A (cur_pos ?w1) = WHITE" and o1: "cout ?w1 = []"
    by (simp_all add: scripted_api_def endings_book_def at_fen_def demo_session_def)
  have e2: "MoveList_LEGAL ?A (cur_pos ?w2) = []" and c2: "checkers ?A (cur_pos ?w2) \<noteq> 0"
    and s2: "side_to_move ?A (cur_pos ?w2) = BLACK" and o2: "cout ?w2 = []"
    by (simp_all add: scripted_api_def endings_book_def at_fen_def demo_session_def)
  have e3: "MoveList_LEGAL ?A (cur_pos ?w3) = []" and c3: "checkers ?A (cur_pos ?w3) = 0"
    and o3: "cout ?w3 = []"
    by (simp_all add: scripted_api_def endings_book_def at_fen_def demo_session_def)
  note T1 = validator_no_legal_moves [OF e1, of "istream ''e2e4''"]
  note T2 = validator_no_legal_moves [OF e2, of "istream ''g8h8''"]
  note T3 = validator_no_legal_moves [OF e3, of "istream ''h8g8''"]
  from T1 [THEN conjunct1] c1 s1
  have "position_make_move ?A ?w1 (istream ''e2e4'') =
          Inr (?w1\<lparr> cout := cout ?w1 @ [''Game over: black wins''] \<rparr>)"
    by blast
  then have r1: "position_make_move ?A ?w1 (istream ''e2e4'') =
          Inr (?w1\<lparr> cout := [''Game over: black wins''] \<rparr>)"
    by (simp only: o1 append_Nil)
  from T2 [THEN conjunct2, THEN conjunct1] c2 s2
  have "position_make_move ?A ?w2 (istream ''g8h8'') =
          Inr (?w2\<lparr> cout := cout ?w2 @ [''Game over: white wins''] \<rparr>)"
    by blast
  then have r2: "position_make_move ?A ?w2 (istream ''g8h8'') =
          Inr (?w2\<lparr> cout := [''Game over: white wins''] \<rparr>)"
    by (simp only: o2 append_Nil)
  from T3 [THEN conjunct2, THEN conjunct2, THEN conjunct1] c3
  have "position_make_move ?A ?w3 (istream ''h8g8'') =
          Inr (?w3\<lparr> cout := cout ?w3 @ [''Game over: draw''] \<rparr>)"
    by blast
  then have r3: "position_make_move ?A ?w3 (istream ''h8g8'') =
          Inr (?w3\<lparr> cout := [''Game over: draw''] \<rparr>)"
    by (simp only: o3 append_Nil)
  from r1 r2 r3 show ?thesis
    by (intro conjI)
qed

text \<open>
  C6. In the validator, when the Position has legal moves and the move token decodes to
  the no-move sentinel, or the decoded move is applied and the consistency check of the
  resulting Position fails, "Game over" is reported and the session is otherwise as
  before the call. On the second path the code undoes the move, so the Position is the
  one before the call by the collaborator's contract that undo_move reverses do_move,
  which is the last hypothesis.
\<close>

theorem validator_failure_paths:
  assumes "MoveList_LEGAL api (cur_pos w) \<noteq> []"
    and "m = to_move api (cur_pos w) (case fst (get_token ss) of Some t \<Rightarrow> t | None \<Rightarrow> [])"
    and "m = MOVE_NONE
         \<or> (is_ok m \<and> legal api (cur_pos w) m \<and> \<not> pos_is_ok api (do_move api (cur_pos w) m)
            \<and> undo_move api (do_move api (cur_pos w) m) m = cur_pos w)"
  shows "position_make_move api w ss = Inr (w\<lparr> cout := cout w @ [''Game over''] \<rparr>)"
  using assms(3)
proof
  assume "m = MOVE_NONE"
  then have "\<not> is_ok m"
    by (simp add: is_ok_def MOVE_NONE_def from_sq_def to_sq_def)
  with assms(1,2) show ?thesis
    by (simp add: position_make_move_def Let_def)
next
  assume "is_ok m \<and> legal api (cur_pos w) m \<and> \<not> pos_is_ok api (do_move api (cur_pos w) m)
            \<and> undo_move api (do_move api (cur_pos w) m) m = cur_pos w"
  with assms(1,2) show ?thesis
    by (simp add: position_make_move_def Let_def)
qed

text \<open>
  Both paths: an illegal coordinate string, and a collaborator whose check fails after a1b1.
\<close>

theorem validator_failure_paths_witness:
  "position_make_move (scripted_api a7_book) (at_fen ''8/P6k/8/8/8/8/8/K7 w - - 0 1 '')
      (istream ''a1a3'')
     = Inr ((at_fen ''8/P6k/8/8/8/8/8/K7 w - - 0 1 '') \<lparr> cout := [''Game over''] \<rparr>)
   \<and> position_make_move (scripted_api faulty_book) (at_fen ''8/P6k/8/8/8/8/8/K7 w - - 0 1 '')
      (istream ''a1b1'')
     = Inr ((at_fen ''8/P6k/8/8/8/8/8/K7 w - - 0 1 '') \<lparr> cout := [''Game over''] \<rparr>)"
proof -
  let ?w = "at_fen ''8/P6k/8/8/8/8/8/K7 w - - 0 1 ''"
  let ?A = "scripted_api a7_book"
  let ?B = "scripted_api faulty_book"
  have cp: "cur_pos ?w = a7_pos" and o: "cout ?w = []"
    by (simp_all add: at_fen_def demo_session_def a7_pos_def)
  have tk1: "(case fst (get_token (istream ''a1a3'')) of Some t \<Rightarrow> t | None \<Rightarrow> []) = ''a1a3''"
    by code_simp
  have tk2: "(case fst (get_token (istream ''a1b1'')) of Some t \<Rightarrow> t | None \<Rightarrow> []) = ''a1b1''"
    by code_simp
  have a1: "MoveList_LEGAL ?A (cur_pos ?w) \<noteq> []"
    unfolding cp by (simp add: book_eval)
  have a2: "MOVE_NONE = to_move ?A (cur_pos ?w)
              (case fst (get_token (istream ''a1a3'')) of Some t \<Rightarrow> t | None \<Rightarrow> [])"
    unfolding cp tk1 by (simp add: codec_eval book_eval)
  have a3: "MOVE_NONE = MOVE_NONE
         \<or> (is_ok MOVE_NONE \<and> legal ?A (cur_pos ?w) MOVE_NONE
            \<and> \<not> pos_is_ok ?A (do_move ?A (cur_pos ?w) MOVE_NONE)
            \<and> undo_move ?A (do_move ?A (cur_pos ?w) MOVE_NONE) MOVE_NONE = cur_pos ?w)"
    by simp
  have b1: "MoveList_LEGAL ?B (cur_pos ?w) \<noteq> []"
    unfolding cp by (simp add: book_eval faulty_book_def make_move_def)
  have b2: "make_move 0 1 = to_move ?B (cur_pos ?w)
              (case fst (get_token (istream ''a1b1'')) of Some t \<Rightarrow> t | None \<Rightarrow> [])"
    unfolding cp tk2 by (simp add: codec_eval book_eval faulty_book_def)
  have b3: "make_move 0 1 = MOVE_NONE
         \<or> (is_ok (make_move 0 1) \<and> legal ?B (cur_pos ?w) (make_move 0 1)
            \<and> \<not> pos_is_ok ?B (do_move ?B (cur_pos ?w) (make_move 0 1))
            \<and> undo_move ?B (do_move ?B (cur_pos ?w) (make_move 0 1)) (make_move 0 1) = cur_pos ?w)"
    unfolding cp
    by (simp add: codec_eval book_eval faulty_book_def is_ok_def)
  from validator_failure_paths [OF a1 a2 a3] validator_failure_paths [OF b1 b2 b3]
  show ?thesis
    by (simp only: o append_Nil simp_thms)
qed


section \<open>Properties of the setoption handler\<close>

lemma get_token_nonempty: "get_token ss = (Some t, ss') \<Longrightarrow> t \<noteq> []"
proof -
  assume a: "get_token ss = (Some t, ss')"
  let ?rest = "dropWhile isspace (buf ss)"
  from a have ne: "?rest \<noteq> []" and t: "t = takeWhile (\<lambda>c. \<not> isspace c) ?rest"
    by (auto simp: get_token_def Let_def split: if_splits)
  from ne have "\<not> isspace (hd ?rest)"
    by (rule hd_dropWhile)
  with ne have "takeWhile (\<lambda>c. \<not> isspace c) ?rest \<noteq> []"
    by (cases ?rest) auto
  with t show ?thesis by simp
qed

lemma tokens_nonempty: "t \<in> set (tokens ss) \<Longrightarrow> t \<noteq> []"
proof (induction ss rule: tokens.induct)
  case (1 ss)
  obtain t0 ss' where g: "get_token ss = (t0, ss')"
    by (cases "get_token ss")
  show ?case
  proof (cases t0)
    case None
    with g "1.prems" show ?thesis by (simp add: tokens_None)
  next
    case (Some u)
    with g have tk: "tokens ss = u # tokens ss'" by (simp add: tokens_Some)
    from g Some have "u \<noteq> []" by (auto dest: get_token_nonempty)
    with "1.prems" tk "1.IH" [OF g [symmetric] Some] show ?thesis by auto
  qed
qed

lemma join_acc_nonempty:
  "acc \<noteq> [] \<Longrightarrow>
   foldl (\<lambda>a t. a @ (if a = [] then [] else '' '') @ t) acc ts = acc @ concat (map (\<lambda>t. '' '' @ t) ts)"
  by (induction ts arbitrary: acc) simp_all

lemma unwords_Cons: "unwords (t # ts) = t @ concat (map (\<lambda>t. '' '' @ t) ts)"
  by (induction ts arbitrary: t) simp_all

lemma join_acc_unwords:
  assumes "\<forall>t \<in> set ts. t \<noteq> []"
  shows "foldl (\<lambda>a t. a @ (if a = [] then [] else '' '') @ t) [] ts = unwords ts"
proof (cases ts)
  case Nil
  then show ?thesis by simp
next
  case (Cons t ts')
  with assms have "t \<noteq> []" by simp
  then show ?thesis
    unfolding Cons by (simp add: join_acc_nonempty unwords_Cons del: unwords.simps)
qed

lemma value_loop_eq:
  "value_loop v ss = foldl (\<lambda>a t. a @ (if a = [] then [] else '' '') @ t) v (tokens ss)"
proof (induction v ss rule: value_loop.induct)
  case (1 v ss)
  obtain t0 ss' where g: "get_token ss = (t0, ss')"
    by (cases "get_token ss")
  show ?case
  proof (cases t0)
    case None
    with g show ?thesis
      by (subst value_loop.simps) (simp add: tokens_None)
  next
    case (Some token)
    with g have tk: "tokens ss = token # tokens ss'" by (simp add: tokens_Some)
    from "1.IH" [OF g [symmetric] Some] g Some tk show ?thesis
      by (subst value_loop.simps) simp
  qed
qed

lemma name_loop_eq:
  "fst (name_loop name ss) =
     foldl (\<lambda>a t. a @ (if a = [] then [] else '' '') @ t) name
       (takeWhile (\<lambda>t. t \<noteq> ''value'') (tokens ss))
   \<and> tokens (snd (name_loop name ss)) = drop 1 (dropWhile (\<lambda>t. t \<noteq> ''value'') (tokens ss))"
proof (induction name ss rule: name_loop.induct)
  case (1 name ss)
  obtain t0 ss' where g: "get_token ss = (t0, ss')"
    by (cases "get_token ss")
  show ?case
  proof (cases t0)
    case None
    with g have "name_loop name ss = (name, ss')"
      by (subst name_loop.simps) simp
    moreover from g None have "tokens ss = []" "tokens ss' = []"
      by (simp_all add: tokens_None get_token_None_tokens)
    ultimately show ?thesis by simp
  next
    case (Some token)
    with g have tk: "tokens ss = token # tokens ss'" by (simp add: tokens_Some)
    show ?thesis
    proof (cases "token = ''value''")
      case True
      with g Some have "name_loop name ss = (name, ss')"
        by (subst name_loop.simps) simp
      with tk True show ?thesis by simp
    next
      case False
      with g Some have eq: "name_loop name ss =
          name_loop (name @ (if name = [] then [] else '' '') @ token) ss'"
        by (subst name_loop.simps) simp
      from "1.IH" [OF g [symmetric] Some False] tk False show ?thesis
        unfolding eq by simp
    qed
  qed
qed

lemma setoption_args_eq:
  "setoption_args ss =
     (unwords (takeWhile (\<lambda>t. t \<noteq> ''value'') (drop 1 (tokens ss))),
      unwords (drop 1 (dropWhile (\<lambda>t. t \<noteq> ''value'') (drop 1 (tokens ss)))))"
proof -
  let ?ts = "drop 1 (tokens ss)"
  let ?ss1 = "snd (get_token ss)"
  have t1: "tokens ?ss1 = ?ts"
    by (rule tokens_after_get_token)
  have ne: "\<forall>t \<in> set (tokens ss). t \<noteq> []"
    using tokens_nonempty by blast
  have ne1: "\<forall>t \<in> set (takeWhile (\<lambda>t. t \<noteq> ''value'') ?ts). t \<noteq> []"
    using ne by (metis in_set_dropD set_takeWhileD)
  have ne2: "\<forall>t \<in> set (drop 1 (dropWhile (\<lambda>t. t \<noteq> ''value'') ?ts)). t \<noteq> []"
    using ne by (metis in_set_dropD set_dropWhileD)
  obtain name ss2 where nl: "name_loop [] ?ss1 = (name, ss2)"
    by (cases "name_loop [] ?ss1")
  with name_loop_eq [of "[]" ?ss1] t1
  have n: "name = foldl (\<lambda>a t. a @ (if a = [] then [] else '' '') @ t) []
                    (takeWhile (\<lambda>t. t \<noteq> ''value'') ?ts)"
    and t2: "tokens ss2 = drop 1 (dropWhile (\<lambda>t. t \<noteq> ''value'') ?ts)"
    by simp_all
  from n have n': "name = unwords (takeWhile (\<lambda>t. t \<noteq> ''value'') ?ts)"
    by (simp only: join_acc_unwords [OF ne1])
  have "value_loop [] ss2 = unwords (drop 1 (dropWhile (\<lambda>t. t \<noteq> ''value'') ?ts))"
    by (simp only: value_loop_eq t2 join_acc_unwords [OF ne2])
  with nl n' show ?thesis
    by (simp add: setoption_args_def Let_def)
qed

text \<open>
  C7. For every setoption command: the parsed name is the tokens after the first one up
  to "value", joined by single spaces, and the parsed value is the tokens after "value",
  joined the same way. If the name is registered in the option table, its value is
  overwritten with the parsed value and a lookup of the name then yields it; if not,
  "No such option: <name>" is written and the option table is unchanged. (The table's
  count and assignment are modelled from the spec.)
\<close>

theorem setoption_effect:
  "setoption_args ss =
     (unwords (takeWhile (\<lambda>t. t \<noteq> ''value'') (drop 1 (tokens ss))),
      unwords (drop 1 (dropWhile (\<lambda>t. t \<noteq> ''value'') (drop 1 (tokens ss)))))
   \<and> (Options w (fst (setoption_args ss)) \<noteq> None \<longrightarrow>
        setoption w ss = w\<lparr> Options := (Options w)(fst (setoption_args ss) \<mapsto> snd (setoption_args ss)) \<rparr>
        \<and> Options (setoption w ss) (fst (setoption_args ss)) = Some (snd (setoption_args ss)))
   \<and> (Options w (fst (setoption_args ss)) = None \<longrightarrow>
        setoption w ss = w\<lparr> cout := cout w @ [''No such option: '' @ fst (setoption_args ss)] \<rparr>
        \<and> Options (setoption w ss) = Options w)"
proof (intro conjI impI)
  show "setoption_args ss =
     (unwords (takeWhile (\<lambda>t. t \<noteq> ''value'') (drop 1 (tokens ss))),
      unwords (drop 1 (dropWhile (\<lambda>t. t \<noteq> ''value'') (drop 1 (tokens ss)))))"
    by (rule setoption_args_eq)
next
  assume "Options w (fst (setoption_args ss)) \<noteq> None"
  then show "setoption w ss =
      w\<lparr> Options := (Options w)(fst (setoption_args ss) \<mapsto> snd (setoption_args ss)) \<rparr>"
    by (simp add: setoption_def Options_count_def Options_assign_def split_beta)
next
  assume "Options w (fst (setoption_args ss)) \<noteq> None"
  then show "Options (setoption w ss) (fst (setoption_args ss)) = Some (snd (setoption_args ss))"
    by (simp add: setoption_def Options_count_def Options_assign_def split_beta)
next
  assume "Options w (fst (setoption_args ss)) = None"
  then show "setoption w ss = w\<lparr> cout := cout w @ [''No such option: '' @ fst (setoption_args ss)] \<rparr>"
    by (simp add: setoption_def Options_count_def split_beta)
next
  assume "Options w (fst (setoption_args ss)) = None"
  then show "Options (setoption w ss) = Options w"
    by (simp add: setoption_def Options_count_def split_beta)
qed

text \<open>
  "setoption name Hash value 128" stores "128" under Hash; an unregistered name only
  writes the diagnostic.
\<close>

theorem setoption_effect_witness:
  "Options (setoption demo_session (istream ''name Hash value 128'')) ''Hash'' = Some ''128''
   \<and> setoption demo_session (istream ''name NoSuchOption value 1'') =
       demo_session\<lparr> cout := [''No such option: NoSuchOption''] \<rparr>
   \<and> Options (setoption demo_session (istream ''name NoSuchOption value 1'')) = Options demo_session"
proof -
  let ?s1 = "istream ''name Hash value 128''"
  let ?s2 = "istream ''name NoSuchOption value 1''"
  note T1 = setoption_effect [of ?s1 demo_session]
  note T2 = setoption_effect [of ?s2 demo_session]
  have tk1: "tokens ?s1 = [''name'', ''Hash'', ''value'', ''128'']"
    by code_simp
  have tk2: "tokens ?s2 = [''name'', ''NoSuchOption'', ''value'', ''1'']"
    by code_simp
  from T1 [THEN conjunct1] have a1: "setoption_args ?s1 = (''Hash'', ''128'')"
    unfolding tk1 by simp
  from T2 [THEN conjunct1] have a2: "setoption_args ?s2 = (''NoSuchOption'', ''1'')"
    unfolding tk2 by simp
  have h1: "Options demo_session (fst (setoption_args ?s1)) \<noteq> None"
    unfolding a1 by (simp add: demo_session_def)
  have h2: "Options demo_session (fst (setoption_args ?s2)) = None"
    unfolding a2 by (simp add: demo_session_def)
  have o: "cout demo_session = []"
    by (simp add: demo_session_def)
  from T1 [THEN conjunct2, THEN conjunct1, rule_format, OF h1, THEN conjunct2]
  have r1: "Options (setoption demo_session ?s1) ''Hash'' = Some ''128''"
    unfolding a1 by simp
  from T2 [THEN conjunct2, THEN conjunct2, rule_format, OF h2, THEN conjunct1]
  have r2: "setoption demo_session ?s2 = demo_session\<lparr> cout := [''No such option: NoSuchOption''] \<rparr>"
    unfolding a2 o by simp
  from T2 [THEN conjunct2, THEN conjunct2, rule_format, OF h2, THEN conjunct2]
  have r3: "Options (setoption demo_session ?s2) = Options demo_session" .
  from r1 r2 r3 show ?thesis
    by (intro conjI)
qed


section \<open>Properties of the go handler\<close>

lemma get_token_None_failbit: "get_token ss = (None, ss') \<Longrightarrow> failbit ss'"
  by (auto simp: get_token_def Let_def split: if_splits)

lemma get_token_failbit: "failbit ss \<Longrightarrow> get_token ss = (None, ss)"
  by (simp add: get_token_def)

lemma searchmoves_loop_eq:
  "fst (searchmoves_loop api p limits ss) =
     limits\<lparr> searchmoves := searchmoves limits @ map (to_move api p) (tokens ss) \<rparr>
   \<and> failbit (snd (searchmoves_loop api p limits ss))"
proof (induction api p limits ss rule: searchmoves_loop.induct)
  case (1 api p limits ss)
  obtain t0 ss' where g: "get_token ss = (t0, ss')"
    by (cases "get_token ss")
  show ?case
  proof (cases t0)
    case None
    with g have "searchmoves_loop api p limits ss = (limits, ss')"
      by (subst searchmoves_loop.simps) simp
    moreover from g None have "tokens ss = []" and "failbit ss'"
      by (simp_all add: tokens_None get_token_None_failbit)
    ultimately show ?thesis by simp
  next
    case (Some token)
    with g have tk: "tokens ss = token # tokens ss'" by (simp add: tokens_Some)
    from g Some have eq: "searchmoves_loop api p limits ss =
        searchmoves_loop api p (limits\<lparr> searchmoves := searchmoves limits @ [to_move api p token] \<rparr>) ss'"
      by (subst searchmoves_loop.simps) simp
    from "1.IH" [OF g [symmetric] Some] tk show ?thesis
      unfolding eq by simp
  qed
qed

lemma go_hands_over:
  "thinking (go api eng w ss) =
     thinking w @ [go_loop api (cur_pos w) (LimitsType0\<lparr> startTime := now eng (ticks w) \<rparr>, False) ss]"
  by (simp add: go_def Let_def split_beta)

lemma go_loop_searchmoves:
  assumes "get_token ss = (Some ''searchmoves'', ss')"
  shows "go_loop api p (limits, ponderMode) ss =
           (limits\<lparr> searchmoves := searchmoves limits @ map (to_move api p) (tokens ss') \<rparr>,
            ponderMode)"
proof -
  let ?r = "searchmoves_loop api p limits ss'"
  from searchmoves_loop_eq [of api p limits ss']
  have l: "fst ?r = limits\<lparr> searchmoves := searchmoves limits @ map (to_move api p) (tokens ss') \<rparr>"
    and f: "failbit (snd ?r)"
    by simp_all
  from f have e: "get_token (snd ?r) = (None, snd ?r)"
    by (rule get_token_failbit)
  have "go_loop api p (limits, ponderMode) ss = go_loop api p (fst ?r, ponderMode) (snd ?r)"
    using assms by (subst go_loop.simps) simp
  also have "\<dots> = (fst ?r, ponderMode)"
    using e by (subst go_loop.simps) simp
  finally show ?thesis
    by (simp only: l)
qed

lemma go_loop_after:
  "go_after k (lp, ss) = Some (lp1, ss1) \<Longrightarrow> go_loop api p lp ss = go_loop api p lp1 ss1"
proof (induction k arbitrary: lp ss)
  case 0
  then show ?case by simp
next
  case (Suc k)
  obtain t0 ss' where g: "get_token ss = (t0, ss')"
    by (cases "get_token ss")
  show ?case
  proof (cases t0)
    case None
    with Suc.prems g show ?thesis by simp
  next
    case (Some token)
    show ?thesis
    proof (cases "token = ''searchmoves''")
      case True
      with Suc.prems g Some show ?thesis by simp
    next
      case False
      obtain lp2 ss2 where k: "go_keyword token lp ss' = (lp2, ss2)"
        by (cases "go_keyword token lp ss'")
      from Suc.prems g Some False k have "go_after k (lp2, ss2) = Some (lp1, ss1)"
        by simp
      then have "go_loop api p lp2 ss2 = go_loop api p lp1 ss1"
        by (rule Suc.IH)
      moreover from g Some False k have "go_loop api p lp ss = go_loop api p lp2 ss2"
        by (subst go_loop.simps) simp
      ultimately show ?thesis by simp
    qed
  qed
qed

text \<open>
  C10. In the go handler, once the loop reads the token "searchmoves" (after any number of
  rounds that read other tokens), every remaining token of the line is decoded against the
  current Position and appended to the search-move list, a token that decodes to no legal
  move as the no-move sentinel; the request handed to start_thinking is the request as it
  stood when "searchmoves" was read, with the search-move list so extended and nothing
  else changed, so no later token is read as a limit keyword.
\<close>

theorem go_searchmoves_takes_rest:
  assumes "go_after k ((LimitsType0\<lparr> startTime := now eng (ticks w) \<rparr>, False), ss) =
             Some ((limits, ponderMode), ss1)"
    and "get_token ss1 = (Some ''searchmoves'', ss')"
  shows "go api eng w ss =
           w\<lparr> ticks := Suc (ticks w),
              states := start_thinking eng (cur_pos w) (states w)
                 (limits\<lparr> searchmoves :=
                    searchmoves limits @ map (to_move api (cur_pos w)) (tokens ss') \<rparr>) ponderMode,
              thinking := thinking w @
                 [(limits\<lparr> searchmoves :=
                     searchmoves limits @ map (to_move api (cur_pos w)) (tokens ss') \<rparr>,
                   ponderMode)] \<rparr>"
proof -
  from assms(1)
  have "go_loop api (cur_pos w) (LimitsType0\<lparr> startTime := now eng (ticks w) \<rparr>, False) ss =
          go_loop api (cur_pos w) (limits, ponderMode) ss1"
    by (rule go_loop_after)
  also from assms(2)
  have "\<dots> = (limits\<lparr> searchmoves :=
                    searchmoves limits @ map (to_move api (cur_pos w)) (tokens ss') \<rparr>, ponderMode)"
    by (rule go_loop_searchmoves)
  finally show ?thesis
    by (simp add: go_def Let_def)
qed

text \<open>
  "depth 3" before "searchmoves" sets the depth; "depth 5 infinite" after it become three
  no-move entries, and the depth stays 3 and the infinite flag 0.
\<close>

theorem go_searchmoves_takes_rest_witness:
  "go (scripted_api a7_book) demo_engine (at_fen ''8/P6k/8/8/8/8/8/K7 w - - 0 1 '')
      (istream ''depth 3 searchmoves a7a8q depth 5 infinite a1b1'') =
     (at_fen ''8/P6k/8/8/8/8/8/K7 w - - 0 1 '')
       \<lparr> ticks := 1, states := None,
         thinking :=
           [(LimitsType0\<lparr> startTime := 1000, depth := 3,
               searchmoves := [make_T PROMOTION 48 56 QUEEN, MOVE_NONE, MOVE_NONE, MOVE_NONE,
                               make_move 0 1] \<rparr>, False)] \<rparr>"
proof -
  let ?A = "scripted_api a7_book"
  let ?w = "at_fen ''8/P6k/8/8/8/8/8/K7 w - - 0 1 ''"
  let ?ss = "istream ''depth 3 searchmoves a7a8q depth 5 infinite a1b1''"
  let ?s1 = "\<lparr> buf = '' 3 searchmoves a7a8q depth 5 infinite a1b1'', failbit = False \<rparr>"
  let ?s2 = "\<lparr> buf = '' searchmoves a7a8q depth 5 infinite a1b1'', failbit = False \<rparr>"
  let ?s3 = "\<lparr> buf = '' a7a8q depth 5 infinite a1b1'', failbit = False \<rparr>"
  let ?L0 = "LimitsType0\<lparr> startTime := 1000 \<rparr>"
  have w0: "ticks ?w = 0" "states ?w = Some [Blank, Blank, Blank]" "thinking ?w = []"
    and cp: "cur_pos ?w = a7_pos"
    by (simp_all add: at_fen_def demo_session_def a7_pos_def)
  have nw: "now demo_engine (ticks ?w) = 1000"
    and st: "\<And>p sts l pm. start_thinking demo_engine p sts l pm = None"
    by (simp_all add: demo_engine_def)
  have g1: "get_token ?ss = (Some ''depth'', ?s1)"
    by code_simp
  have gi: "get_int 32 0 ?s1 = (3, ?s2)"
    by code_simp
  have g2: "get_token ?s2 = (Some ''searchmoves'', ?s3)"
    by code_simp
  have tk: "tokens ?s3 = [''a7a8q'', ''depth'', ''5'', ''infinite'', ''a1b1'']"
    by code_simp
  have d0: "depth ?L0 = 0" and sm0: "searchmoves (?L0\<lparr> depth := 3 \<rparr>) = []"
    by (simp_all add: LimitsType0_def)
  have kw: "go_keyword ''depth'' (?L0, False) ?s1 = ((?L0\<lparr> depth := 3 \<rparr>, False), ?s2)"
    by (simp add: go_keyword_def d0 gi)
  have after: "go_after 1 ((LimitsType0\<lparr> startTime := now demo_engine (ticks ?w) \<rparr>, False), ?ss) =
      Some ((?L0\<lparr> depth := 3 \<rparr>, False), ?s2)"
    unfolding nw by (simp add: g1 kw)
  have mv: "map (to_move ?A a7_pos) [''a7a8q'', ''depth'', ''5'', ''infinite'', ''a1b1'']
              = [make_T PROMOTION 48 56 QUEEN, MOVE_NONE, MOVE_NONE, MOVE_NONE, make_move 0 1]"
    by (simp add: codec_eval book_eval)
  from go_searchmoves_takes_rest [OF after g2, of ?A]
  show ?thesis
    unfolding cp tk mv sm0 w0 st by simp
qed


section \<open>Properties of the bench handler\<close>

lemma ticks_go: "ticks (go api eng w ss) = Suc (ticks w)"
  by (simp add: go_def Let_def split_beta)

lemma ticks_setoption: "ticks (setoption w ss) = ticks w"
  by (simp add: setoption_def Let_def split_beta)

lemma ticks_position: "ticks (position api w ss) = ticks w"
  by (simp add: position_def Let_def split_beta split: option.splits)

lemma ticks_bench_loop:
  "ticks w \<le> ticks (fst (bench_loop api eng num list (w, token, nds, cnt)))"
proof (induction list arbitrary: w token nds cnt)
  case Nil
  show ?case by simp
next
  case (Cons cmd list)
  obtain t0 ss where g: "get_token (istream cmd) = (t0, ss)"
    by (cases "get_token (istream cmd)")
  define token' where "token' = (case t0 of Some t \<Rightarrow> t | None \<Rightarrow> token)"
  define st where "st =
    (if token' = ''go'' then
              (let w1 = w\<lparr> cerr := cerr w @ [Txt (CHR 0x0A # ''Position: ''), Num (uint cnt),
                                              Txt ''/'', Num (uint num), Txt [CHR 0x0A]] \<rparr>;
                   w2 = go api eng w1 ss
               in (w2, token',
                   nds + nodes_searched eng (cur_pos w2) (fst (last (thinking w2))), cnt + 1))
            else if token' = ''setoption'' then (setoption w ss, token', nds, cnt)
            else if token' = ''position'' then (position api w ss, token', nds, cnt)
            else if token' = ''ucinewgame'' then (w, token', nds, cnt)
            else (w, token', nds, cnt))"
  have step: "bench_loop api eng num (cmd # list) (w, token, nds, cnt) = bench_loop api eng num list st"
    by (simp add: g token'_def st_def Let_def)
  have le: "ticks w \<le> ticks (fst st)"
    by (simp add: st_def Let_def ticks_go ticks_setoption ticks_position)
  obtain w' tk' n' c' where st': "st = (w', tk', n', c')"
    by (cases st) auto
  from Cons.IH [of w' tk' n' c'] le show ?case
    unfolding step st' by simp
qed

lemma wrap64_id: "- (2 ^ 63) \<le> x \<Longrightarrow> x < 2 ^ 63 \<Longrightarrow> wrap64 x = x"
  by (simp add: wrap64_def)

text \<open>
  C8. For every bench run, whatever the expanded command list holds (none of its entries
  need be a go), the run ends with a report, never with a division by zero: the elapsed
  time of the report is at least 1, its conversion to the unsigned divisor is not zero, and
  the nodes per second are 1000 * nodes / elapsed. The clock is the collaborator's: its
  readings do not decrease (now() reads a steady clock) and are millisecond counts below
  the largest 64-bit value, the two hypotheses.
\<close>

theorem bench_elapsed_at_least_one:
  assumes mono: "\<forall>i j. i \<le> j \<longrightarrow> now eng i \<le> now eng j"
    and range: "\<forall>k. 0 \<le> now eng k \<and> now eng k < 2 ^ 63 - 1"
  shows "\<exists>w' r. bench api eng w args = Inr (w', r) \<and> 1 \<le> elapsed r
           \<and> (word_of_int (elapsed r) :: 64 word) \<noteq> 0
           \<and> nodes_per_second r = (1000 * total_nodes r) div word_of_int (elapsed r)"
proof -
  define list where "list = setup_bench eng (cur_pos w) args"
  define num :: "64 word" where "num = of_nat (length (filter (\<lambda>s. take 3 s = ''go '') list))"
  define st where "st = bench_loop api eng num list (w\<lparr> ticks := Suc (ticks w) \<rparr>, [], 0, 1)"
  obtain w1 token nds cnt where st': "st = (w1, token, nds, cnt)"
    by (cases st) auto
  have "ticks (w\<lparr> ticks := Suc (ticks w) \<rparr>) \<le> ticks (fst st)"
    unfolding st_def by (rule ticks_bench_loop)
  then have "ticks w \<le> ticks w1"
    by (simp add: st')
  with mono have ge: "now eng (ticks w) \<le> now eng (ticks w1)"
    by blast
  from range have "0 \<le> now eng (ticks w)" and "now eng (ticks w1) < 2 ^ 63 - 1"
    by blast+
  with ge have lo: "1 \<le> now eng (ticks w1) - now eng (ticks w) + 1"
    and hi: "now eng (ticks w1) - now eng (ticks w) + 1 < 2 ^ 63"
    by linarith+
  from lo hi have el: "wrap64 (now eng (ticks w1) - now eng (ticks w) + 1) =
      now eng (ticks w1) - now eng (ticks w) + 1"
    by (intro wrap64_id) linarith+
  have b: "bench api eng w args =
      (let el = wrap64 (now eng (ticks w1) - now eng (ticks w) + 1);
           w2 = w1\<lparr> ticks := Suc (ticks w1) \<rparr>
       in if el = 0 then Inl DivideByZero
         else
           (let nps = (1000 * nds) div word_of_int el in
            Inr (w2\<lparr> cerr := cerr w2 @
                   [Txt (CHR 0x0A # ''===========================''),
                    Txt (CHR 0x0A # ''Total time (ms) : ''), Num el,
                    Txt (CHR 0x0A # ''Nodes searched  : ''), Num (uint nds),
                    Txt (CHR 0x0A # ''Nodes/second    : ''), Num (uint nps), Txt [CHR 0x0A]] \<rparr>,
                 \<lparr> elapsed = el, total_nodes = nds, nodes_per_second = nps \<rparr>)))"
    using st' unfolding st_def num_def list_def
    by (simp add: bench_def Let_def)
  have "\<not> (2 ^ 64 :: int) dvd now eng (ticks w1) - now eng (ticks w) + 1"
  proof
    assume "(2 ^ 64 :: int) dvd now eng (ticks w1) - now eng (ticks w) + 1"
    with lo have "(2 ^ 64 :: int) \<le> now eng (ticks w1) - now eng (ticks w) + 1"
      by (intro zdvd_imp_le) linarith+
    with hi show False by simp
  qed
  then have nz: "(word_of_int (now eng (ticks w1) - now eng (ticks w) + 1) :: 64 word) \<noteq> 0"
    unfolding word_of_int_eq_0_iff by simp
  from lo nz show ?thesis
    unfolding b el by (simp add: Let_def)
qed

text \<open>
  A list without a go entry on a clock that stands still: elapsed time 1, no nodes.
\<close>

theorem bench_elapsed_at_least_one_witness:
  "(\<exists>w'. bench (scripted_api a7_book) demo_engine demo_session [] =
      Inr (w', \<lparr> elapsed = 1, total_nodes = 0, nodes_per_second = 0 \<rparr>))"
proof -
  have mono: "\<forall>i j. i \<le> j \<longrightarrow> now demo_engine i \<le> now demo_engine j"
    by (simp add: demo_engine_def)
  have range: "\<forall>k. 0 \<le> now demo_engine k \<and> now demo_engine k < 2 ^ 63 - 1"
    by (simp add: demo_engine_def)
  from bench_elapsed_at_least_one [OF mono range, of "scripted_api a7_book" demo_session "[]"]
  obtain w' r where b: "bench (scripted_api a7_book) demo_engine demo_session [] = Inr (w', r)"
    and "1 \<le> elapsed r"
    by blast
  have tk1: "get_token (istream ''setoption name Hash value 32'') =
      (Some ''setoption'', \<lparr> buf = '' name Hash value 32'', failbit = False \<rparr>)"
    by code_simp
  have tk2: "get_token (istream ''ucinewgame'') = (Some ''ucinewgame'', \<lparr> buf = [], failbit = False \<rparr>)"
    by code_simp
  have tk3: "get_token (istream ''position startpos'') =
      (Some ''position'', \<lparr> buf = '' startpos'', failbit = False \<rparr>)"
    by code_simp
  have "snd (snd (bench_loop (scripted_api a7_book) demo_engine 0
          [''setoption name Hash value 32'', ''ucinewgame'', ''position startpos'']
          (demo_session\<lparr> ticks := Suc (ticks demo_session) \<rparr>, [], 0, 1))) = (0, 1)
       \<and> ticks (fst (bench_loop (scripted_api a7_book) demo_engine 0
          [''setoption name Hash value 32'', ''ucinewgame'', ''position startpos'']
          (demo_session\<lparr> ticks := Suc (ticks demo_session) \<rparr>, [], 0, 1))) = Suc (ticks demo_session)"
    by (simp add: tk1 tk2 tk3 ticks_setoption ticks_position)
  then have "\<exists>w1 token. bench_loop (scripted_api a7_book) demo_engine 0
          [''setoption name Hash value 32'', ''ucinewgame'', ''position startpos'']
          (demo_session\<lparr> ticks := Suc (ticks demo_session) \<rparr>, [], 0, 1) = (w1, token, 0, 1)"
    by (metis prod.collapse)
  then obtain w1 token where bl: "bench_loop (scripted_api a7_book) demo_engine 0
          [''setoption name Hash value 32'', ''ucinewgame'', ''position startpos'']
          (demo_session\<lparr> ticks := Suc (ticks demo_session) \<rparr>, [], 0, 1) = (w1, token, 0, 1)"
    by blast
  have "r = \<lparr> elapsed = 1, total_nodes = 0, nodes_per_second = 0 \<rparr>"
    using b bl by (simp add: bench_def demo_engine_def Let_def wrap64_def)
  with b show ?thesis
    by blast
qed


section \<open>Properties of the validator: castling rights\<close>

lemma remove1_first: "remove1 c xs = takeWhile (\<lambda>x. x \<noteq> c) xs @ tl (dropWhile (\<lambda>x. x \<noteq> c) xs)"
  by (induction xs) auto

lemma at_split: "s = a @ c # r \<Longrightarrow> i = length a \<Longrightarrow> s ! i = c \<and> take i s = a \<and> drop (Suc i) s = r"
  by simp

lemma find_char_None: "find_char c start s = None \<Longrightarrow> c \<notin> set (drop start s)"
proof -
  assume a: "find_char c start s = None"
  let ?d = "drop start s"
  from a have "length s \<le> start + length (takeWhile (\<lambda>x. x \<noteq> c) ?d)"
    by (simp add: find_char_def Let_def split: if_splits)
  then have "length ?d \<le> length (takeWhile (\<lambda>x. x \<noteq> c) ?d)"
    by simp
  then have "takeWhile (\<lambda>x. x \<noteq> c) ?d = ?d"
    by (metis length_takeWhile_le order_antisym takeWhile_dropWhile_id append_eq_conv_conj
          append_self_conv length_0_conv length_append add_diff_cancel_left' diff_is_0_eq')
  then show ?thesis
    by (metis set_takeWhileD)
qed

lemma find_char_Some:
  assumes "find_char c start s = Some i" and "start \<le> length s"
  shows "i < length s \<and> s ! i = c \<and> erase1 s i = take start s @ remove1 c (drop start s)"
proof -
  let ?d = "drop start s"
  let ?t = "takeWhile (\<lambda>x. x \<noteq> c) ?d"
  let ?r = "dropWhile (\<lambda>x. x \<noteq> c) ?d"
  from assms(1) have i: "i = start + length ?t" and lt: "i < length s"
    by (auto simp: find_char_def Let_def split: if_splits)
  have d: "?d = ?t @ ?r"
    by simp
  have s: "s = take start s @ ?t @ ?r"
    by simp
  have ls: "length (take start s) = start"
    using assms(2) by simp
  from lt i ls have "length ?t < length ?d"
    by simp
  then have ne: "?r \<noteq> []"
    by (metis d append_Nil2 less_irrefl)
  then have hd: "hd ?r = c"
    using hd_dropWhile [of "\<lambda>x. x \<noteq> c" ?d] by simp
  from ne hd obtain r' where r: "?r = c # r'"
    by (cases ?r) auto
  have s': "s = (take start s @ ?t) @ c # r'"
    using s r by simp
  have li: "length (take start s @ ?t) = i"
    using i ls by simp
  from at_split [OF s' li [symmetric]]
  have nth: "s ! i = c" and tk: "take i s = take start s @ ?t" and dr: "drop (Suc i) s = r'"
    by blast+
  have "remove1 c ?d = ?t @ r'"
    by (simp add: remove1_first [of c ?d] r)
  with tk dr have "erase1 s i = take start s @ remove1 c ?d"
    by (simp add: erase1_def)
  with lt nth show ?thesis
    by simp
qed

lemma erase_rights_eq:
  assumes sp: "find_char CHR '' '' 0 s = Some w" and ne: "kc \<noteq> qc"
  shows "erase_rights kc qc s = Inr (take w s @ remove1 qc (remove1 kc (drop w s)))"
proof -
  from find_char_Some [OF sp] have w: "w \<le> length s"
    by simp
  let ?sp = "case find_char kc w s of None \<Rightarrow> find_char qc w s | Some i \<Rightarrow> Some i"
  define fen1 where "fen1 = (case ?sp of None \<Rightarrow> s | Some i \<Rightarrow> if s ! i = kc then erase1 s i else s)"
  define fen2 where "fen2 =
    (case find_char qc w fen1 of None \<Rightarrow> fen1 | Some i \<Rightarrow> if fen1 ! i = qc then erase1 fen1 i else fen1)"
  have e: "erase_rights kc qc s = Inr fen2"
    unfolding erase_rights_def Let_def sp fen2_def fen1_def by simp
  have f1: "fen1 = take w s @ remove1 kc (drop w s)"
  proof (cases "find_char kc w s")
    case (Some i)
    with find_char_Some [OF Some w] show ?thesis
      by (simp add: fen1_def)
  next
    case None
    then have "kc \<notin> set (drop w s)"
      by (rule find_char_None)
    then have id: "take w s @ remove1 kc (drop w s) = s"
      by (simp add: remove1_idem)
    show ?thesis
    proof (cases "find_char qc w s")
      case None
      with \<open>find_char kc w s = None\<close> id show ?thesis
        by (simp add: fen1_def)
    next
      case (Some j)
      with find_char_Some [OF Some w] ne have "s ! j \<noteq> kc"
        by auto
      with Some \<open>find_char kc w s = None\<close> id show ?thesis
        by (simp add: fen1_def)
    qed
  qed
  have lw: "length (take w s) = w"
    using w by simp
  have t1: "take w fen1 = take w s" and d1: "drop w fen1 = remove1 kc (drop w s)"
    unfolding f1 using lw by simp_all
  have w1: "w \<le> length fen1"
    unfolding f1 using lw by simp
  have f2: "fen2 = take w fen1 @ remove1 qc (drop w fen1)"
  proof (cases "find_char qc w fen1")
    case (Some i)
    with find_char_Some [OF Some w1] show ?thesis
      by (simp add: fen2_def)
  next
    case None
    then have "qc \<notin> set (drop w fen1)"
      by (rule find_char_None)
    then have "take w fen1 @ remove1 qc (drop w fen1) = fen1"
      by (simp add: remove1_idem)
    with None show ?thesis
      by (simp add: fen2_def)
  qed
  show ?thesis
    unfolding e f2 t1 d1 ..
qed

lemma find_first_space: "CHR '' '' \<notin> set pl \<Longrightarrow> find_char CHR '' '' 0 (pl @ CHR '' '' # xs) = Some (length pl)"
proof -
  assume "CHR '' '' \<notin> set pl"
  then have "takeWhile (\<lambda>x. x \<noteq> CHR '' '') (pl @ CHR '' '' # xs) = pl"
    by (subst takeWhile_append2) auto
  then show ?thesis
    by (simp add: find_char_def Let_def)
qed

lemma remove1_at_most_once: "count_list xs x \<le> 1 \<Longrightarrow> remove1 x xs = filter (\<lambda>y. y \<noteq> x) xs"
proof (induction xs)
  case Nil
  show ?case by simp
next
  case (Cons a xs)
  show ?case
  proof (cases "a = x")
    case True
    with Cons.prems have "count_list xs x = 0"
      by simp
    then have "x \<notin> set xs"
      by (simp add: count_list_0_iff)
    then have "filter (\<lambda>y. y \<noteq> x) xs = xs"
      by (auto simp: filter_id_conv)
    with True show ?thesis by simp
  next
    case False
    with Cons show ?thesis by simp
  qed
qed

lemma count_list_filter_le: "count_list (filter P xs) x \<le> count_list xs x"
  by (induction xs) auto

lemma erase_rights_layout:
  assumes "CHR '' '' \<notin> set pl" and "kc \<noteq> qc" and "kc \<noteq> CHR '' ''" and "qc \<noteq> CHR '' ''"
    and "kc \<notin> set stm" and "qc \<notin> set stm" and "kc \<notin> set rest" and "qc \<notin> set rest"
    and "count_list cr kc \<le> 1" and "count_list cr qc \<le> 1"
  shows "erase_rights kc qc (pl @ '' '' @ stm @ '' '' @ cr @ '' '' @ rest) =
           Inr (pl @ '' '' @ stm @ '' '' @ filter (\<lambda>c. c \<noteq> kc \<and> c \<noteq> qc) cr @ '' '' @ rest)"
proof -
  let ?s = "pl @ '' '' @ stm @ '' '' @ cr @ '' '' @ rest"
  have k: "remove1 kc (CHR '' '' # stm @ CHR '' '' # cr @ CHR '' '' # rest) =
             CHR '' '' # stm @ CHR '' '' # remove1 kc cr @ CHR '' '' # rest"
    using assms(3,5,7) by (simp add: remove1_append remove1_idem)
  have "count_list (remove1 kc cr) qc \<le> count_list cr qc"
    by (simp add: remove1_at_most_once [OF assms(9)] count_list_filter_le)
  with assms(10) have c2: "count_list (remove1 kc cr) qc \<le> 1"
    by simp
  have q: "remove1 qc (CHR '' '' # stm @ CHR '' '' # remove1 kc cr @ CHR '' '' # rest) =
             CHR '' '' # stm @ CHR '' '' # remove1 qc (remove1 kc cr) @ CHR '' '' # rest"
    using assms(4,6,8) by (simp add: remove1_append remove1_idem)
  have "remove1 qc (remove1 kc cr) = filter (\<lambda>y. y \<noteq> qc) (remove1 kc cr)"
    by (rule remove1_at_most_once [OF c2])
  also have "\<dots> = filter (\<lambda>y. y \<noteq> qc) (filter (\<lambda>y. y \<noteq> kc) cr)"
    by (simp only: remove1_at_most_once [OF assms(9)])
  also have "\<dots> = filter (\<lambda>c. c \<noteq> kc \<and> c \<noteq> qc) cr"
    by (simp add: conj_commute)
  finally have f: "remove1 qc (remove1 kc cr) = filter (\<lambda>c. c \<noteq> kc \<and> c \<noteq> qc) cr" .
  let ?x = "stm @ CHR '' '' # cr @ CHR '' '' # rest"
  have "erase_rights kc qc (pl @ CHR '' '' # ?x) =
          Inr (take (length pl) (pl @ CHR '' '' # ?x) @
               remove1 qc (remove1 kc (drop (length pl) (pl @ CHR '' '' # ?x))))"
    by (rule erase_rights_eq [OF find_first_space [OF assms(1)] assms(2)])
  also have "\<dots> = Inr (pl @ remove1 qc (remove1 kc (CHR '' '' # ?x)))"
    by simp
  also have "\<dots> = Inr (pl @ CHR '' '' # stm @ CHR '' '' # filter (\<lambda>c. c \<noteq> kc \<and> c \<noteq> qc) cr @ CHR '' '' # rest)"
    by (simp only: k q f)
  finally show ?thesis
    by simp
qed

lemma castling_field_layout:
  assumes "CHR '' '' \<notin> set pl" and "CHR '' '' \<notin> set stm" and "CHR '' '' \<notin> set cr"
  shows "castling_field (pl @ '' '' @ stm @ '' '' @ cr @ '' '' @ rest) = cr"
proof -
  have a: "dropWhile (\<lambda>c. c \<noteq> CHR '' '') (pl @ CHR '' '' # stm @ CHR '' '' # cr @ CHR '' '' # rest)
             = CHR '' '' # stm @ CHR '' '' # cr @ CHR '' '' # rest"
    using assms(1) by (subst dropWhile_append2) auto
  have b: "dropWhile (\<lambda>c. c \<noteq> CHR '' '') (stm @ CHR '' '' # cr @ CHR '' '' # rest)
             = CHR '' '' # cr @ CHR '' '' # rest"
    using assms(2) by (subst dropWhile_append2) auto
  have c: "takeWhile (\<lambda>c. c \<noteq> CHR '' '') (cr @ CHR '' '' # rest) = cr"
    using assms(3) by (subst takeWhile_append2) auto
  show ?thesis
    by (simp add: castling_field_def a b c)
qed

lemma is_own_opponent: "is_own (opponent us) c \<Longrightarrow> \<not> is_own us c"
  by (cases us) (auto simp: is_own_def opponent_def)

text \<open>
  C2. When the validator applies a castling move (the token decodes to a legal castling
  move and the consistency check passes), the FEN it captures is edited and fed to the
  position handler, and the castling-rights field of the string fed is the captured field
  with exactly the mover's own letters (K and Q for WHITE, k and q for BLACK) removed:
  none of them is left, and the opponent's letters are those of the FEN before the move.
  The hypotheses on the captured FEN are the layout the Position collaborator's
  serialisation has: placement, side, castling rights and the rest separated by single
  spaces, the mover's letters nowhere after the placement but in the castling field, at
  most once each. That the serialisation after a castling move carries the opponent's
  letters of the serialisation before it, and that undo_move reverses do_move, are the
  collaborator's contracts.
\<close>

theorem validator_castling_rights:
  assumes "MoveList_LEGAL api (cur_pos w) \<noteq> []"
    and "m = to_move api (cur_pos w) (case fst (get_token ss) of Some t \<Rightarrow> t | None \<Rightarrow> [])"
    and "is_ok m" and "legal api (cur_pos w) m" and "type_of m = CASTLING"
    and "pos_is_ok api (do_move api (cur_pos w) m)"
    and "undo_move api (do_move api (cur_pos w) m) m = cur_pos w"
    and "side_to_move api (cur_pos w) = us" and "us = WHITE \<or> us = BLACK"
    and "fen api (do_move api (cur_pos w) m) = pl @ '' '' @ stm @ '' '' @ cr @ '' '' @ rest"
    and "CHR '' '' \<notin> set pl" and "CHR '' '' \<notin> set stm" and "CHR '' '' \<notin> set cr"
    and "\<forall>c. is_own us c \<longrightarrow> c \<notin> set stm \<and> c \<notin> set rest \<and> count_list cr c \<le> 1"
    and "filter (is_own (opponent us)) cr =
           filter (is_own (opponent us)) (castling_field (fen api (cur_pos w)))"
    and "refed = pl @ '' '' @ stm @ '' '' @ filter (\<lambda>c. \<not> is_own us c) cr @ '' '' @ rest"
  shows "position_make_move api w ss = Inr (position api w (istream (''fen '' @ refed)))
       \<and> castling_field refed = filter (\<lambda>c. \<not> is_own us c) cr
       \<and> (\<forall>c \<in> set (castling_field refed). \<not> is_own us c)
       \<and> filter (is_own (opponent us)) (castling_field refed) =
           filter (is_own (opponent us)) (castling_field (fen api (cur_pos w)))"
proof -
  let ?cr' = "filter (\<lambda>c. \<not> is_own us c) cr"
  have nsp: "CHR '' '' \<notin> set ?cr'"
    using assms(13) by simp
  have cf: "castling_field refed = ?cr'"
    unfolding assms(16) by (rule castling_field_layout [OF assms(11,12) nsp])
  have own: "\<forall>c \<in> set (castling_field refed). \<not> is_own us c"
    unfolding cf by simp
  have "(\<lambda>x. \<not> is_own us x \<and> is_own (opponent us) x) = is_own (opponent us)"
    using is_own_opponent by blast
  then have "filter (is_own (opponent us)) ?cr' = filter (is_own (opponent us)) cr"
    by simp
  with assms(15) have opp: "filter (is_own (opponent us)) (castling_field refed) =
           filter (is_own (opponent us)) (castling_field (fen api (cur_pos w)))"
    unfolding cf by simp
  have er: "(if side_to_move api (cur_pos w) = WHITE
             then erase_rights CHR ''K'' CHR ''Q'' (fen api (do_move api (cur_pos w) m))
             else if side_to_move api (cur_pos w) = BLACK
             then erase_rights CHR ''k'' CHR ''q'' (fen api (do_move api (cur_pos w) m))
             else Inl AssertionFailed) = Inr refed"
    using assms(9)
  proof
    assume us: "us = WHITE"
    from assms(14) have "CHR ''K'' \<notin> set stm" "CHR ''Q'' \<notin> set stm"
      "CHR ''K'' \<notin> set rest" "CHR ''Q'' \<notin> set rest"
      "count_list cr CHR ''K'' \<le> 1" "count_list cr CHR ''Q'' \<le> 1"
      by (simp_all add: us is_own_def)
    then have "erase_rights CHR ''K'' CHR ''Q'' (pl @ '' '' @ stm @ '' '' @ cr @ '' '' @ rest) =
        Inr (pl @ '' '' @ stm @ '' '' @ filter (\<lambda>c. c \<noteq> CHR ''K'' \<and> c \<noteq> CHR ''Q'') cr @ '' '' @ rest)"
      by (intro erase_rights_layout assms(11)) simp_all
    then show ?thesis
      unfolding assms(8) assms(10) assms(16) us by (simp add: is_own_def)
  next
    assume us: "us = BLACK"
    from assms(14) have "CHR ''k'' \<notin> set stm" "CHR ''q'' \<notin> set stm"
      "CHR ''k'' \<notin> set rest" "CHR ''q'' \<notin> set rest"
      "count_list cr CHR ''k'' \<le> 1" "count_list cr CHR ''q'' \<le> 1"
      by (simp_all add: us is_own_def)
    then have "erase_rights CHR ''k'' CHR ''q'' (pl @ '' '' @ stm @ '' '' @ cr @ '' '' @ rest) =
        Inr (pl @ '' '' @ stm @ '' '' @ filter (\<lambda>c. c \<noteq> CHR ''k'' \<and> c \<noteq> CHR ''q'') cr @ '' '' @ rest)"
      by (intro erase_rights_layout assms(11)) simp_all
    then show ?thesis
      unfolding assms(8) assms(10) assms(16) us by (simp add: is_own_def)
  qed
  have "position_make_move api w ss = Inr (position api w (istream (''fen '' @ refed)))"
    using assms(1) assms(3-7) er
    unfolding assms(2)
    by (simp add: position_make_move_def Let_def)
  with cf own opp show ?thesis
    by (intro conjI)
qed

lemmas castle_eval = scripted_api_def castle_book_def late_book_def e1h1_legal_def
  after_castling_legal_def at_fen_def demo_session_def no_snapshot_def

text \<open>
  White castles king-side: with the collaborator's FEN after the move ("b q") the edit
  finds nothing to erase; with a FEN that still carries the mover's letter ("b Kq") the K
  is erased. Both feed "... b q - 1 1" to the position handler.
\<close>

theorem validator_castling_rights_witness:
  "position_make_move (scripted_api castle_book) (at_fen ''r3k3/8/8/8/8/8/8/4K2R w Kq - 0 1 '')
      (istream ''e1g1'') =
     Inr (position (scripted_api castle_book) (at_fen ''r3k3/8/8/8/8/8/8/4K2R w Kq - 0 1 '')
            (istream ''fen r3k3/8/8/8/8/8/8/5RK1 b q - 1 1''))
   \<and> position_make_move (scripted_api late_book) (at_fen ''r3k3/8/8/8/8/8/8/4K2R w Kq - 0 1 '')
      (istream ''e1g1'') =
     Inr (position (scripted_api late_book) (at_fen ''r3k3/8/8/8/8/8/8/4K2R w Kq - 0 1 '')
            (istream ''fen r3k3/8/8/8/8/8/8/5RK1 b q - 1 1''))
   \<and> castling_field ''r3k3/8/8/8/8/8/8/4K2R w Kq - 0 1'' = ''Kq''
   \<and> castling_field ''r3k3/8/8/8/8/8/8/5RK1 b q - 1 1'' = ''q''"
proof -
  let ?A = "scripted_api castle_book"
  let ?B = "scripted_api late_book"
  let ?w = "at_fen ''r3k3/8/8/8/8/8/8/4K2R w Kq - 0 1 ''"
  let ?m = "make_T CASTLING 4 7 KNIGHT"
  let ?ss = "istream ''e1g1''"
  have tk: "(case fst (get_token ?ss) of Some t \<Rightarrow> t | None \<Rightarrow> []) = ''e1g1''"
    by code_simp
  have f0: "castling_field ''r3k3/8/8/8/8/8/8/4K2R w Kq - 0 1'' = ''Kq''"
    and f1: "castling_field ''r3k3/8/8/8/8/8/8/5RK1 b q - 1 1'' = ''q''"
    by (simp_all add: castling_field_def)
  have side: "WHITE = WHITE \<or> WHITE = BLACK"
    by simp
  have own_stm: "\<forall>c. is_own WHITE c \<longrightarrow> c \<notin> set ''b'' \<and> c \<notin> set ''- 1 1'' \<and> count_list ''q'' c \<le> 1"
    by (auto simp: is_own_def)
  have own_stm': "\<forall>c. is_own WHITE c \<longrightarrow> c \<notin> set ''b'' \<and> c \<notin> set ''- 1 1'' \<and> count_list ''Kq'' c \<le> 1"
    by (auto simp: is_own_def)
  have nsp: "CHR '' '' \<notin> set ''r3k3/8/8/8/8/8/8/5RK1''" "CHR '' '' \<notin> set ''b''"
    "CHR '' '' \<notin> set ''q''" "CHR '' '' \<notin> set ''Kq''"
    by simp_all
  have a1: "MoveList_LEGAL ?A (cur_pos ?w) \<noteq> []"
    by (simp add: castle_eval)
  have a2: "?m = to_move ?A (cur_pos ?w) (case fst (get_token ?ss) of Some t \<Rightarrow> t | None \<Rightarrow> [])"
    unfolding tk by (simp add: codec_eval castle_eval)
  have a3: "is_ok ?m" and a5: "type_of ?m = CASTLING"
    by (simp_all add: codec_eval is_ok_def)
  have a4: "legal ?A (cur_pos ?w) ?m"
    by (simp add: codec_eval castle_eval)
  have a6: "pos_is_ok ?A (do_move ?A (cur_pos ?w) ?m)"
    by (simp add: codec_eval castle_eval)
  have a7: "undo_move ?A (do_move ?A (cur_pos ?w) ?m) ?m = cur_pos ?w"
    by (simp add: castle_eval)
  have a8: "side_to_move ?A (cur_pos ?w) = WHITE"
    by (simp add: castle_eval)
  have a10: "fen ?A (do_move ?A (cur_pos ?w) ?m) =
      ''r3k3/8/8/8/8/8/8/5RK1'' @ '' '' @ ''b'' @ '' '' @ ''q'' @ '' '' @ ''- 1 1''"
    by (simp add: codec_eval castle_eval)
  have a15: "filter (is_own (opponent WHITE)) ''q'' =
      filter (is_own (opponent WHITE)) (castling_field (fen ?A (cur_pos ?w)))"
    by (simp add: castle_eval castling_field_def is_own_def opponent_def)
  have a16: "''r3k3/8/8/8/8/8/8/5RK1 b q - 1 1'' =
      ''r3k3/8/8/8/8/8/8/5RK1'' @ '' '' @ ''b'' @ '' '' @ filter (\<lambda>c. \<not> is_own WHITE c) ''q'' @ '' '' @ ''- 1 1''"
    by (simp add: is_own_def)
  have b1: "MoveList_LEGAL ?B (cur_pos ?w) \<noteq> []"
    by (simp add: codec_eval castle_eval)
  have b2: "?m = to_move ?B (cur_pos ?w) (case fst (get_token ?ss) of Some t \<Rightarrow> t | None \<Rightarrow> [])"
    unfolding tk by (simp add: codec_eval castle_eval)
  have b4: "legal ?B (cur_pos ?w) ?m"
    by (simp add: codec_eval castle_eval)
  have b6: "pos_is_ok ?B (do_move ?B (cur_pos ?w) ?m)"
    by (simp add: codec_eval castle_eval)
  have b7: "undo_move ?B (do_move ?B (cur_pos ?w) ?m) ?m = cur_pos ?w"
    by (simp add: castle_eval)
  have b8: "side_to_move ?B (cur_pos ?w) = WHITE"
    by (simp add: codec_eval castle_eval)
  have b10: "fen ?B (do_move ?B (cur_pos ?w) ?m) =
      ''r3k3/8/8/8/8/8/8/5RK1'' @ '' '' @ ''b'' @ '' '' @ ''Kq'' @ '' '' @ ''- 1 1''"
    by (simp add: codec_eval castle_eval)
  have b15: "filter (is_own (opponent WHITE)) ''Kq'' =
      filter (is_own (opponent WHITE)) (castling_field (fen ?B (cur_pos ?w)))"
    by (simp add: codec_eval castle_eval castling_field_def is_own_def opponent_def)
  have b16: "''r3k3/8/8/8/8/8/8/5RK1 b q - 1 1'' =
      ''r3k3/8/8/8/8/8/8/5RK1'' @ '' '' @ ''b'' @ '' '' @ filter (\<lambda>c. \<not> is_own WHITE c) ''Kq'' @ '' '' @ ''- 1 1''"
    by (simp add: is_own_def)
  note TA = validator_castling_rights [OF a1 a2 a3 a4 a5 a6 a7 a8 side a10 nsp(1,2,3) own_stm a15 a16]
  note TB = validator_castling_rights [OF b1 b2 a3 b4 a5 b6 b7 b8 side b10 nsp(1,2,4) own_stm' b15 b16]
  have ap: "''fen '' @ ''r3k3/8/8/8/8/8/8/5RK1 b q - 1 1'' = ''fen r3k3/8/8/8/8/8/8/5RK1 b q - 1 1''"
    by simp
  from TA [THEN conjunct1] TB [THEN conjunct1] f0 f1 show ?thesis
    unfolding ap by (intro conjI)
qed

end
